theory Spec2Isabelle
  imports Complex_Main "HOL-Library.Multiset"
begin

section \<open>Data model of gomoku_ai.js\<close>

text \<open>
  The board is a JavaScript array of row arrays holding the numbers \<open>EMPTY = 0\<close>,
  \<open>BLACK = 1\<close> and \<open>WHITE = 2\<close>; a move is the object \<open>{row, col}\<close>.
  Scores are JavaScript numbers. Every score the program computes is a whole number (the
  pattern constants, the products of a multiple of ten with 0.9 and 0.8, and sums of
  these; lemmas \<open>positionScore_tens\<close> and \<open>combinedScore_whole\<close> below), on which
  double arithmetic is exact below \<open>2 ^ 53\<close>, so scores are modelled as rationals;
  \<open>-Infinity\<close> and \<open>Infinity\<close>, the initial bounds of the search, are the two
  extra values of \<open>jsnum\<close>.
\<close>

type_synonym board = "nat list list"

record move =
  row :: nat
  col :: nat

datatype error = TypeError

datatype jsnum = NegInf | Fin rat | PosInf

definition EMPTY :: nat where "EMPTY = 0"
definition BLACK :: nat where "BLACK = 1"
definition WHITE :: nat where "WHITE = 2"

definition FIVE :: rat where "FIVE = 100000"
definition OPEN_FOUR :: rat where "OPEN_FOUR = 10000"
definition FOUR :: rat where "FOUR = 1000"
definition OPEN_THREE :: rat where "OPEN_THREE = 1000"
definition THREE :: rat where "THREE = 100"
definition OPEN_TWO :: rat where "OPEN_TWO = 100"
definition TWO :: rat where "TWO = 10"

text \<open>The order of JavaScript numbers on \<open>jsnum\<close>.\<close>

instantiation jsnum :: linorder
begin

fun less_eq_jsnum :: "jsnum \<Rightarrow> jsnum \<Rightarrow> bool" where
  "less_eq_jsnum NegInf y = True"
| "less_eq_jsnum (Fin x) NegInf = False"
| "less_eq_jsnum (Fin x) (Fin y) = (x \<le> y)"
| "less_eq_jsnum (Fin x) PosInf = True"
| "less_eq_jsnum PosInf NegInf = False"
| "less_eq_jsnum PosInf (Fin y) = False"
| "less_eq_jsnum PosInf PosInf = True"

definition less_jsnum :: "jsnum \<Rightarrow> jsnum \<Rightarrow> bool" where
  "less_jsnum x y = (x \<le> y \<and> \<not> y \<le> x)"

instance
proof
  fix x y z :: jsnum
  show "(x < y) = (x \<le> y \<and> \<not> y \<le> x)"
    by (simp add: less_jsnum_def)
  show "x \<le> x"
    by (cases x) simp_all
  show "x \<le> y \<Longrightarrow> y \<le> z \<Longrightarrow> x \<le> z"
    by (cases x; cases y; cases z) simp_all
  show "x \<le> y \<Longrightarrow> y \<le> x \<Longrightarrow> x = y"
    by (cases x; cases y) simp_all
  show "x \<le> y \<or> y \<le> x"
    by (cases x; cases y) auto
qed

end

subsection \<open>Reading and writing cells\<close>

text \<open>
  \<open>xs[i]\<close> on a JavaScript array is \<open>undefined\<close> (here \<open>None\<close>) outside the array;
  \<open>board[r][c]\<close> throws a TypeError when \<open>board[r]\<close> is \<open>undefined\<close>.
\<close>

definition lookup :: "'a list \<Rightarrow> int \<Rightarrow> 'a option" where
  "lookup xs i = (if 0 \<le> i \<and> i < int (length xs) then Some (xs ! nat i) else None)"

definition readCell :: "board \<Rightarrow> int \<Rightarrow> int \<Rightarrow> error + nat option" where
  "readCell b r c = (case lookup b r of None \<Rightarrow> Inl TypeError | Some rw \<Rightarrow> Inr (lookup rw c))"

text \<open>
  \<open>cellAt\<close> is the read at the places where the source has checked the row index
  against \<open>board.length\<close> just before (the loop bounds of \<open>getValidMoves\<close>, the guards of
  its neighbour scan and of \<open>checkWin\<close>).
\<close>

definition cellAt :: "board \<Rightarrow> int \<Rightarrow> int \<Rightarrow> nat option" where
  "cellAt b r c = (case readCell b r c of Inl e \<Rightarrow> None | Inr v \<Rightarrow> v)"

text \<open>
  \<open>board[move.row][move.col] = v\<close>. Every move the program writes to comes from
  \<open>getValidMoves\<close> and lies inside its row (lemma \<open>getValidMoves_empty\<close> below).
\<close>

definition setCell :: "board \<Rightarrow> move \<Rightarrow> nat \<Rightarrow> board" where
  "setCell b m v = b[row m := (b ! row m)[col m := v]]"

section \<open>Pattern scoring and the line evaluator\<close>

fun getPatternScore :: "nat \<Rightarrow> nat \<Rightarrow> rat" where
  "getPatternScore pieceCount emptyCount =
     (if pieceCount = 5 then FIVE
      else if pieceCount = 4 \<and> emptyCount = 1 then OPEN_FOUR
      else if pieceCount = 4 \<and> emptyCount = 0 then FOUR
      else if pieceCount = 3 \<and> emptyCount = 2 then OPEN_THREE
      else if pieceCount = 3 \<and> emptyCount = 1 then THREE
      else if pieceCount = 2 \<and> emptyCount = 3 then OPEN_TWO
      else if pieceCount = 2 \<and> emptyCount = 2 then TWO
      else 0)"

text \<open>
  The counting loop of \<open>evaluateLine\<close> over \<open>i = 0, ..., 4\<close>: the counters are
  \<open>(playerCount, opponentCount, emptyCount)\<close>.
\<close>

fun countLine ::
  "board \<Rightarrow> int \<Rightarrow> int \<Rightarrow> int \<Rightarrow> int \<Rightarrow> nat \<Rightarrow> nat \<Rightarrow> int list \<Rightarrow> nat \<times> nat \<times> nat
    \<Rightarrow> error + nat \<times> nat \<times> nat" where
  "countLine b r0 c0 dx dy player opponent [] cnt = Inr cnt"
| "countLine b r0 c0 dx dy player opponent (i # is) (pc, oc, ec) =
     (case readCell b (r0 + i * dx) (c0 + i * dy) of
        Inl e \<Rightarrow> Inl e
      | Inr v \<Rightarrow>
          if v = Some player then countLine b r0 c0 dx dy player opponent is (pc + 1, oc, ec)
          else if v = Some opponent then countLine b r0 c0 dx dy player opponent is (pc, oc + 1, ec)
          else countLine b r0 c0 dx dy player opponent is (pc, oc, ec + 1))"

definition lineCounts ::
  "board \<Rightarrow> int \<Rightarrow> int \<Rightarrow> int \<Rightarrow> int \<Rightarrow> nat \<Rightarrow> nat \<Rightarrow> error + nat \<times> nat \<times> nat" where
  "lineCounts b r0 c0 dx dy player opponent =
     countLine b r0 c0 dx dy player opponent [0, 1, 2, 3, 4] (0, 0, 0)"

definition lineScore :: "nat \<times> nat \<times> nat \<Rightarrow> rat" where
  "lineScore cnt =
     (case cnt of (playerCount, opponentCount, emptyCount) \<Rightarrow>
        if playerCount > 0 \<and> opponentCount > 0 then 0
        else if playerCount > 0 \<and> opponentCount = 0 then getPatternScore playerCount emptyCount
        else if opponentCount > 0 \<and> playerCount = 0
          then - getPatternScore opponentCount emptyCount * (9 / 10)
        else 0)"

definition evaluateLine ::
  "board \<Rightarrow> int \<Rightarrow> int \<Rightarrow> int \<Rightarrow> int \<Rightarrow> nat \<Rightarrow> nat \<Rightarrow> error + rat" where
  "evaluateLine b r0 c0 dx dy player opponent =
     (case lineCounts b r0 c0 dx dy player opponent of
        Inl e \<Rightarrow> Inl e
      | Inr cnt \<Rightarrow> Inr (lineScore cnt))"

section \<open>The position evaluator\<close>

text \<open>
  The calls of \<open>evaluateLine\<close> that the body of the double loop of \<open>evaluatePosition\<close>
  makes at cell \<open>(i, j)\<close>, as \<open>(row, col, dx, dy)\<close> in the order of the four guards, and
  the calls of the whole double loop.
\<close>

definition otherPlayer :: "nat \<Rightarrow> nat" where
  "otherPlayer player = (if player = BLACK then WHITE else BLACK)"

definition cellCalls :: "nat \<Rightarrow> nat \<Rightarrow> nat \<Rightarrow> (int \<times> int \<times> int \<times> int) list" where
  "cellCalls n i j =
     (if int j \<le> int n - 5 then [(int i, int j, 0, 1)] else []) @
     (if int i \<le> int n - 5 then [(int i, int j, 1, 0)] else []) @
     (if int i \<le> int n - 5 \<and> int j \<le> int n - 5 then [(int i, int j, 1, 1)] else []) @
     (if int i \<le> int n - 5 \<and> j \<ge> 4 then [(int i, int j, 1, - 1)] else [])"

definition lineCalls :: "nat \<Rightarrow> (int \<times> int \<times> int \<times> int) list" where
  "lineCalls n = concat (map (\<lambda>i. concat (map (\<lambda>j. cellCalls n i j) [0..<n])) [0..<n])"

fun sumLines :: "board \<Rightarrow> nat \<Rightarrow> nat \<Rightarrow> rat \<Rightarrow> (int \<times> int \<times> int \<times> int) list \<Rightarrow> error + rat" where
  "sumLines b player opponent score [] = Inr score"
| "sumLines b player opponent score ((r, c, dx, dy) # calls) =
     (case evaluateLine b r c dx dy player opponent of
        Inl e \<Rightarrow> Inl e
      | Inr v \<Rightarrow> sumLines b player opponent (score + v) calls)"

definition evaluatePosition :: "board \<Rightarrow> nat \<Rightarrow> error + rat" where
  "evaluatePosition b player =
     sumLines b player (otherPlayer player) 0 (lineCalls (length b))"

section \<open>The win detector\<close>

text \<open>
  One of the two counting loops of \<open>checkWin\<close> over \<open>i = 1, ..., 4\<close>; \<open>sg\<close> is \<open>1\<close> for
  the loop that adds \<open>i * dy\<close>, \<open>i * dx\<close> and \<open>-1\<close> for the one that subtracts them.
  The loop stops at the first cell that is off the board or not the player's.
\<close>

fun countRun ::
  "board \<Rightarrow> int \<Rightarrow> int \<Rightarrow> nat \<Rightarrow> int \<Rightarrow> int \<Rightarrow> int \<Rightarrow> int list \<Rightarrow> nat \<Rightarrow> nat" where
  "countRun b r c player dx dy sg [] cnt = cnt"
| "countRun b r c player dx dy sg (i # is) cnt =
     (let newRow = r + sg * i * dy; newCol = c + sg * i * dx in
      if newRow \<ge> 0 \<and> newRow < int (length b) \<and> newCol \<ge> 0 \<and> newCol < int (length b)
         \<and> cellAt b newRow newCol = Some player
      then countRun b r c player dx dy sg is (cnt + 1)
      else cnt)"

definition directions :: "(int \<times> int) list" where
  "directions = [(1, 0), (0, 1), (1, 1), (1, - 1)]"

fun winLoop :: "board \<Rightarrow> int \<Rightarrow> int \<Rightarrow> nat \<Rightarrow> (int \<times> int) list \<Rightarrow> bool" where
  "winLoop b r c player [] = False"
| "winLoop b r c player ((dx, dy) # ds) =
     (let cnt = countRun b r c player dx dy (- 1) [1, 2, 3, 4]
                  (countRun b r c player dx dy 1 [1, 2, 3, 4] 1)
      in if cnt \<ge> 5 then True else winLoop b r c player ds)"

definition checkWin :: "board \<Rightarrow> int \<Rightarrow> int \<Rightarrow> nat \<Rightarrow> bool" where
  "checkWin b r c player = winLoop b r c player directions"

section \<open>The candidate generator\<close>

text \<open>
  The neighbourhood scan of one empty cell, over the offsets \<open>dx, dy = -2, ..., 2\<close> in
  loop order: it ends with a push at the first neighbour on the board that is not
  \<open>EMPTY\<close> (the source leaves both loops by setting \<open>dx = dy = 3\<close>).
\<close>

definition offsets :: "(int \<times> int) list" where
  "offsets = concat (map (\<lambda>dx. map (\<lambda>dy. (dx, dy)) [- 2, - 1, 0, 1, 2]) [- 2, - 1, 0, 1, 2])"

fun nearStone :: "board \<Rightarrow> nat \<Rightarrow> nat \<Rightarrow> (int \<times> int) list \<Rightarrow> bool" where
  "nearStone b i j [] = False"
| "nearStone b i j ((dx, dy) # offs) =
     (let ni = int i + dx; nj = int j + dy in
      if ni \<ge> 0 \<and> ni < int (length b) \<and> nj \<ge> 0 \<and> nj < int (length b)
         \<and> cellAt b ni nj \<noteq> Some EMPTY
      then True
      else nearStone b i j offs)"

definition cellsOf :: "nat \<Rightarrow> move list" where
  "cellsOf n = concat (map (\<lambda>i. map (\<lambda>j. \<lparr>row = i, col = j\<rparr>) [0..<n]) [0..<n])"

definition isEmpty :: "board \<Rightarrow> move \<Rightarrow> bool" where
  "isEmpty b m = (cellAt b (int (row m)) (int (col m)) = Some EMPTY)"

definition getValidMoves :: "board \<Rightarrow> move list" where
  "getValidMoves b =
     (let validMoves = filter (\<lambda>m. isEmpty b m \<and> nearStone b (row m) (col m) offsets)
                         (cellsOf (length b))
      in if validMoves = [] then filter (isEmpty b) (cellsOf (length b)) else validMoves)"

section \<open>Adversarial search\<close>

text \<open>
  \<open>minimax\<close> mutates the board in place, so the model passes the board through and
  returns it with the score. \<open>maxLoop\<close> and \<open>minLoop\<close> are the two \<open>for\<close> loops over
  \<open>validMoves\<close>, with their running \<open>maxScore\<close>/\<open>minScore\<close>; the early \<open>return\<close> on a
  win and the \<open>break\<close> of the pruning end the loop.
\<close>

function minimax ::
    "board \<Rightarrow> nat \<Rightarrow> jsnum \<Rightarrow> jsnum \<Rightarrow> bool \<Rightarrow> nat \<Rightarrow> nat \<Rightarrow> error + jsnum \<times> board"
  and maxLoop ::
    "board \<Rightarrow> nat \<Rightarrow> jsnum \<Rightarrow> jsnum \<Rightarrow> nat \<Rightarrow> nat \<Rightarrow> move list \<Rightarrow> jsnum \<Rightarrow> error + jsnum \<times> board"
  and minLoop ::
    "board \<Rightarrow> nat \<Rightarrow> jsnum \<Rightarrow> jsnum \<Rightarrow> nat \<Rightarrow> nat \<Rightarrow> move list \<Rightarrow> jsnum \<Rightarrow> error + jsnum \<times> board"
where
  "minimax b depth alpha beta isMaximizing player opponent =
     (if depth = 0
      then (case evaluatePosition b player of Inl e \<Rightarrow> Inl e | Inr s \<Rightarrow> Inr (Fin s, b))
      else
        let validMoves = getValidMoves b in
        if validMoves = []
        then (case evaluatePosition b player of Inl e \<Rightarrow> Inl e | Inr s \<Rightarrow> Inr (Fin s, b))
        else if isMaximizing
        then maxLoop b depth alpha beta player opponent validMoves NegInf
        else minLoop b depth alpha beta player opponent validMoves PosInf)"
| "maxLoop b depth alpha beta player opponent [] maxScore = Inr (maxScore, b)"
| "maxLoop b depth alpha beta player opponent (m # ms) maxScore =
     (let b1 = setCell b m player in
      if checkWin b1 (int (row m)) (int (col m)) player
      then Inr (Fin (FIVE * of_nat depth), setCell b1 m EMPTY)
      else
        case minimax b1 (depth - 1) alpha beta False player opponent of
          Inl e \<Rightarrow> Inl e
        | Inr (score, b2) \<Rightarrow>
            let b3 = setCell b2 m EMPTY;
                maxScore' = max maxScore score;
                alpha' = max alpha score
            in if beta \<le> alpha' then Inr (maxScore', b3)
               else maxLoop b3 depth alpha' beta player opponent ms maxScore')"
| "minLoop b depth alpha beta player opponent [] minScore = Inr (minScore, b)"
| "minLoop b depth alpha beta player opponent (m # ms) minScore =
     (let b1 = setCell b m opponent in
      if checkWin b1 (int (row m)) (int (col m)) opponent
      then Inr (Fin (- FIVE * of_nat depth), setCell b1 m EMPTY)
      else
        case minimax b1 (depth - 1) alpha beta True player opponent of
          Inl e \<Rightarrow> Inl e
        | Inr (score, b2) \<Rightarrow>
            let b3 = setCell b2 m EMPTY;
                minScore' = min minScore score;
                beta' = min beta score
            in if beta' \<le> alpha then Inr (minScore', b3)
               else minLoop b3 depth alpha beta' player opponent ms minScore')"
  by pat_completeness auto
termination
  apply (relation "inv_image (less_than <*lex*> less_than <*lex*> less_than)
     (\<lambda>x. case x of
        Inl (b, d, al, be, mx, p, q) \<Rightarrow> (if d = 0 then (0, 0, 0) else (d + 1, 1, 0))
      | Inr (Inl (b, d, al, be, p, q, ms, s)) \<Rightarrow> (d + 1, 0, length ms)
      | Inr (Inr (b, d, al, be, p, q, ms, s)) \<Rightarrow> (d + 1, 0, length ms))")
  apply auto
  done

declare minimax.simps [simp del]

section \<open>The move selector\<close>

text \<open>The loop of the \<open>'medium'\<close> case, with \<open>goodMoves\<close> and \<open>bestScore\<close>.\<close>

fun mediumLoop ::
  "board \<Rightarrow> nat \<Rightarrow> move list \<Rightarrow> move list \<Rightarrow> jsnum \<Rightarrow> error + move list \<times> board" where
  "mediumLoop b player [] goodMoves bestScore = Inr (goodMoves, b)"
| "mediumLoop b player (m # ms) goodMoves bestScore =
     (let b1 = setCell b m player in
      case evaluatePosition b1 player of
        Inl e \<Rightarrow> Inl e
      | Inr score \<Rightarrow>
          let b2 = setCell b1 m EMPTY in
          if Fin score > bestScore then mediumLoop b2 player ms [m] (Fin score)
          else if Fin score = bestScore then mediumLoop b2 player ms (goodMoves @ [m]) bestScore
          else mediumLoop b2 player ms goodMoves bestScore)"

text \<open>The loop of the \<open>'easy'\<close> case, with \<open>bestMove\<close> and \<open>bestScore\<close>.\<close>

fun easyLoop ::
  "board \<Rightarrow> nat \<Rightarrow> nat \<Rightarrow> move list \<Rightarrow> move option \<Rightarrow> jsnum \<Rightarrow> error + move option \<times> board" where
  "easyLoop b player opponent [] bestMove bestScore = Inr (bestMove, b)"
| "easyLoop b player opponent (m # ms) bestMove bestScore =
     (let b1 = setCell b m player in
      case evaluatePosition b1 player of
        Inl e \<Rightarrow> Inl e
      | Inr myScore \<Rightarrow>
          let b2 = setCell b1 m EMPTY;
              b3 = setCell b2 m opponent
          in case evaluatePosition b3 opponent of
               Inl e \<Rightarrow> Inl e
             | Inr opponentScore \<Rightarrow>
                 let b4 = setCell b3 m EMPTY;
                     score = myScore - opponentScore * (8 / 10)
                 in if Fin score > bestScore
                    then easyLoop b4 player opponent ms (Some m) (Fin score)
                    else easyLoop b4 player opponent ms bestMove bestScore)"

text \<open>
  The \<open>'hard'\<close> case: \<open>scoreMoves\<close> is \<open>validMoves.map\<close> with its place, score, undo;
  \<open>sortDesc\<close> is \<open>sort\<close> with the comparator \<open>b.score - a.score\<close> (stable, as
  ECMAScript requires); \<open>hardLoop\<close> is the loop over the first \<open>min(topN, length)\<close>
  entries.
\<close>

fun scoreMoves :: "board \<Rightarrow> nat \<Rightarrow> move list \<Rightarrow> error + (move \<times> rat) list \<times> board" where
  "scoreMoves b player [] = Inr ([], b)"
| "scoreMoves b player (m # ms) =
     (let b1 = setCell b m player in
      case evaluatePosition b1 player of
        Inl e \<Rightarrow> Inl e
      | Inr score \<Rightarrow>
          let b2 = setCell b1 m EMPTY in
          case scoreMoves b2 player ms of
            Inl e \<Rightarrow> Inl e
          | Inr (rest, b3) \<Rightarrow> Inr ((m, score) # rest, b3))"

definition sortDesc :: "(move \<times> rat) list \<Rightarrow> (move \<times> rat) list" where
  "sortDesc moveScores = sort_key (\<lambda>ms. - snd ms) moveScores"

fun hardLoop ::
  "board \<Rightarrow> nat \<Rightarrow> nat \<Rightarrow> move list \<Rightarrow> move option \<Rightarrow> jsnum \<Rightarrow> error + move option \<times> board" where
  "hardLoop b player opponent [] bestMove bestScore = Inr (bestMove, b)"
| "hardLoop b player opponent (m # ms) bestMove bestScore =
     (let b1 = setCell b m player in
      case minimax b1 2 NegInf PosInf False player opponent of
        Inl e \<Rightarrow> Inl e
      | Inr (score, b2) \<Rightarrow>
          let b3 = setCell b2 m EMPTY in
          if score > bestScore then hardLoop b3 player opponent ms (Some m) score
          else hardLoop b3 player opponent ms bestMove bestScore)"

text \<open>
  \<open>getBestMove\<close>; \<open>rnd\<close> is the value that \<open>Math.random()\<close> returns in the
  \<open>'medium'\<close> case. The result is the move (\<open>None\<close> for \<open>null\<close>) and the board as
  the call leaves it.
\<close>

definition getBestMove :: "board \<Rightarrow> nat \<Rightarrow> string \<Rightarrow> rat \<Rightarrow> error + move option \<times> board" where
  "getBestMove b player difficulty rnd =
     (let opponent = otherPlayer player;
          validMoves = getValidMoves b
      in if validMoves = [] then Inr (None, b)
         else if difficulty = ''medium'' then
           (case mediumLoop b player validMoves [] NegInf of
              Inl e \<Rightarrow> Inl e
            | Inr (goodMoves, b') \<Rightarrow>
                Inr (if length goodMoves > 0
                     then lookup goodMoves \<lfloor>rnd * of_nat (length goodMoves)\<rfloor>
                     else None, b'))
         else if difficulty = ''easy'' then easyLoop b player opponent validMoves None NegInf
         else if difficulty = ''hard'' then
           (case scoreMoves b player validMoves of
              Inl e \<Rightarrow> Inl e
            | Inr (moveScores, b') \<Rightarrow>
                hardLoop b' player opponent (map fst (take 8 (sortDesc moveScores))) None NegInf)
         else Inr (None, b))"

section \<open>Notions used in the statements\<close>

text \<open>
  The table of pattern scores as the specification gives it, for the pairs
  \<open>(stoneCount, emptyCount)\<close> of a 5-cell window.
\<close>

definition patternTable :: "nat \<Rightarrow> nat \<Rightarrow> rat" where
  "patternTable cnt emp =
     (if (cnt, emp) = (5, 0) then 100000
      else if (cnt, emp) = (4, 1) then 10000
      else if (cnt, emp) = (4, 0) then 1000
      else if (cnt, emp) = (3, 2) then 1000
      else if (cnt, emp) = (3, 1) then 100
      else if (cnt, emp) = (2, 3) then 100
      else if (cnt, emp) = (2, 2) then 10
      else 0)"

text \<open>
  The five cells of the window that starts at \<open>(r, c)\<close> and runs along \<open>(dx, dy)\<close>;
  the window is in bounds when each of them is a cell of the board.
\<close>

definition windowCells :: "board \<Rightarrow> int \<Rightarrow> int \<Rightarrow> int \<Rightarrow> int \<Rightarrow> nat option list" where
  "windowCells b r c dx dy = map (\<lambda>i. cellAt b (r + i * dx) (c + i * dy)) [0, 1, 2, 3, 4]"

definition windowInBounds :: "board \<Rightarrow> int \<Rightarrow> int \<Rightarrow> int \<Rightarrow> int \<Rightarrow> bool" where
  "windowInBounds b r c dx dy = (None \<notin> set (windowCells b r c dx dy))"

definition countOf :: "'a \<Rightarrow> 'a list \<Rightarrow> nat" where
  "countOf v xs = length (filter (\<lambda>x. x = v) xs)"

text \<open>
  The score that \<open>evaluatePosition\<close> returns (it never throws, lemma
  \<open>evaluatePosition_total\<close>), the static score of a candidate, the combined score of the
  \<open>'easy'\<close> case and the score of the depth-2 search below a candidate, started with
  the given \<open>isMaximizing\<close> flag.
\<close>

definition positionScore :: "board \<Rightarrow> nat \<Rightarrow> rat" where
  "positionScore b player = (case evaluatePosition b player of Inl e \<Rightarrow> 0 | Inr s \<Rightarrow> s)"

definition staticScore :: "board \<Rightarrow> nat \<Rightarrow> move \<Rightarrow> rat" where
  "staticScore b player m = positionScore (setCell b m player) player"

definition combinedScore :: "board \<Rightarrow> nat \<Rightarrow> move \<Rightarrow> jsnum" where
  "combinedScore b player m =
     Fin (positionScore (setCell b m player) player
          - (8 / 10) * positionScore (setCell b m (otherPlayer player)) (otherPlayer player))"

definition searchFrom :: "bool \<Rightarrow> board \<Rightarrow> nat \<Rightarrow> move \<Rightarrow> jsnum" where
  "searchFrom isMaximizing b player m =
     (case minimax (setCell b m player) 2 NegInf PosInf isMaximizing player (otherPlayer player) of
        Inl e \<Rightarrow> NegInf
      | Inr (s, b') \<Rightarrow> s)"

text \<open>
  Index \<open>i\<close> is the first one of \<open>xs\<close> at which \<open>f\<close> is maximal: nothing in the list
  scores higher and everything before \<open>i\<close> scores strictly lower.
\<close>

definition isFirstMax :: "('a \<Rightarrow> jsnum) \<Rightarrow> 'a list \<Rightarrow> nat \<Rightarrow> bool" where
  "isFirstMax f xs i =
     (i < length xs \<and> (\<forall>j\<in>{..<length xs}. f (xs ! j) \<le> f (xs ! i))
      \<and> (\<forall>j\<in>{..<i}. f (xs ! j) < f (xs ! i)))"

text \<open>The selection that the loops of the \<open>'easy'\<close> and \<open>'hard'\<close> cases make, without the board.\<close>

fun pickBest :: "('a \<Rightarrow> jsnum) \<Rightarrow> 'a list \<Rightarrow> 'a option \<Rightarrow> jsnum \<Rightarrow> 'a option" where
  "pickBest f [] bestMove bestScore = bestMove"
| "pickBest f (m # ms) bestMove bestScore =
     (if f m > bestScore then pickBest f ms (Some m) (f m) else pickBest f ms bestMove bestScore)"

text \<open>A square board: every row is as long as the board.\<close>

definition square :: "board \<Rightarrow> bool" where
  "square b = (\<forall>rw\<in>set b. length rw = length b)"

text \<open>
  The candidates of the \<open>'hard'\<close> case with their static scores, and the candidates kept
  for the search: the first 8 in descending order of the static score.
\<close>

definition scoredCandidates :: "board \<Rightarrow> nat \<Rightarrow> (move \<times> rat) list" where
  "scoredCandidates b player = map (\<lambda>m. (m, staticScore b player m)) (getValidMoves b)"

definition keptCandidates :: "board \<Rightarrow> nat \<Rightarrow> move list" where
  "keptCandidates b player = map fst (take 8 (sortDesc (scoredCandidates b player)))"

text \<open>
  A 5 by 5 position with two empty cells, \<open>(0, 0)\<close> and \<open>(2, 4)\<close>, in which Black has
  four in row 2 and completes five at \<open>(2, 4)\<close>.
\<close>

definition closedFour :: board where
  "closedFour = [[0, 2, 1, 2, 1],
                 [2, 1, 2, 1, 2],
                 [1, 1, 1, 1, 0],
                 [2, 1, 2, 2, 1],
                 [2, 2, 2, 1, 2]]"

text \<open>
  The notions of the win detector's contract: the cell \<open>(r, c)\<close> is on the board and holds
  the player's stone; exactly \<open>k\<close> stones of the player follow \<open>(r, c)\<close> in the sense
  \<open>(dr, dc)\<close>, the next cell being another's, empty or off the board; and the four axes
  (horizontal, vertical and the two diagonals) as steps \<open>(dr, dc)\<close> of row and column.
\<close>

definition stoneAt :: "board \<Rightarrow> nat \<Rightarrow> int \<Rightarrow> int \<Rightarrow> bool" where
  "stoneAt b player r c =
     (0 \<le> r \<and> r < int (length b) \<and> 0 \<le> c \<and> c < int (length b) \<and> cellAt b r c = Some player)"

definition runLength :: "board \<Rightarrow> nat \<Rightarrow> int \<Rightarrow> int \<Rightarrow> int \<Rightarrow> int \<Rightarrow> nat \<Rightarrow> bool" where
  "runLength b player r c dr dc k =
     ((\<forall>i\<in>{1..k}. stoneAt b player (r + int i * dr) (c + int i * dc))
      \<and> \<not> stoneAt b player (r + (int k + 1) * dr) (c + (int k + 1) * dc))"

definition axes :: "(int \<times> int) list" where
  "axes = [(0, 1), (1, 0), (1, 1), (- 1, 1)]"

text \<open>
  A winning cell of the player: an empty cell of the board that is one of five cells in
  line on an axis whose other four hold the player's stones.
\<close>

definition threat :: "board \<Rightarrow> nat \<Rightarrow> move \<Rightarrow> bool" where
  "threat b player w =
     (isEmpty b w \<and> col w < length b
      \<and> (\<exists>(dr, dc)\<in>set axes. \<exists>j\<in>{0..4}. \<forall>i\<in>{0..4}. i \<noteq> j \<longrightarrow>
            stoneAt b player (int (row w) + (int i - int j) * dr) (int (col w) + (int i - int j) * dc)))"

text \<open>
  The change of the position score when one cell is written: \<open>lineVal\<close> is the value of
  one call of \<open>evaluateLine\<close>, \<open>touches\<close> says that the window of a call contains the
  cell, \<open>nearCalls\<close> are the calls of \<open>evaluatePosition\<close> that start at most 4 rows above
  and 4 columns beside the cell, and \<open>deltaScore\<close> adds up the changes of the windows
  that contain it (lemma \<open>positionScore_delta\<close>).
\<close>

definition lineVal :: "board \<Rightarrow> nat \<Rightarrow> nat \<Rightarrow> (int \<times> int \<times> int \<times> int) \<Rightarrow> rat" where
  "lineVal b p q call =
     (case call of (r, c, dx, dy) \<Rightarrow>
        (case evaluateLine b r c dx dy p q of Inl e \<Rightarrow> 0 | Inr v \<Rightarrow> v))"

definition touches :: "move \<Rightarrow> (int \<times> int \<times> int \<times> int) \<Rightarrow> bool" where
  "touches m call =
     (case call of (r, c, dx, dy) \<Rightarrow>
        list_ex (\<lambda>i. r + i * dx = int (row m) \<and> c + i * dy = int (col m)) [0, 1, 2, 3, 4])"

definition nearCalls :: "nat \<Rightarrow> move \<Rightarrow> (int \<times> int \<times> int \<times> int) list" where
  "nearCalls n m =
     concat (map (\<lambda>i. concat (map (\<lambda>j. cellCalls n i j) [col m - 4 ..< min n (col m + 5)]))
       [row m - 4 ..< min n (row m + 1)])"

definition deltaScore :: "board \<Rightarrow> move \<Rightarrow> nat \<Rightarrow> nat \<Rightarrow> rat" where
  "deltaScore b m v p =
     sum_list (map (\<lambda>call. lineVal (setCell b m v) p (otherPlayer p) call
                          - lineVal b p (otherPlayer p) call)
                (filter (touches m) (nearCalls (length b) m)))"

text \<open>
  The 15 by 15 board of scenario B: the only stones are four of player \<open>p\<close> at
  \<open>(7, 3)\<close>, \<open>(7, 4)\<close>, \<open>(7, 5)\<close>, \<open>(7, 6)\<close>. \<open>candidatesB\<close> are its 36 empty cells within two
  steps of a stone, in row-major order.
\<close>

definition scenarioB :: "nat \<Rightarrow> board" where
  "scenarioB p =
     [[0, 0, 0, 0, 0, 0, 0, 0, 0, 0, 0, 0, 0, 0, 0],
      [0, 0, 0, 0, 0, 0, 0, 0, 0, 0, 0, 0, 0, 0, 0],
      [0, 0, 0, 0, 0, 0, 0, 0, 0, 0, 0, 0, 0, 0, 0],
      [0, 0, 0, 0, 0, 0, 0, 0, 0, 0, 0, 0, 0, 0, 0],
      [0, 0, 0, 0, 0, 0, 0, 0, 0, 0, 0, 0, 0, 0, 0],
      [0, 0, 0, 0, 0, 0, 0, 0, 0, 0, 0, 0, 0, 0, 0],
      [0, 0, 0, 0, 0, 0, 0, 0, 0, 0, 0, 0, 0, 0, 0],
      [0, 0, 0, p, p, p, p, 0, 0, 0, 0, 0, 0, 0, 0],
      [0, 0, 0, 0, 0, 0, 0, 0, 0, 0, 0, 0, 0, 0, 0],
      [0, 0, 0, 0, 0, 0, 0, 0, 0, 0, 0, 0, 0, 0, 0],
      [0, 0, 0, 0, 0, 0, 0, 0, 0, 0, 0, 0, 0, 0, 0],
      [0, 0, 0, 0, 0, 0, 0, 0, 0, 0, 0, 0, 0, 0, 0],
      [0, 0, 0, 0, 0, 0, 0, 0, 0, 0, 0, 0, 0, 0, 0],
      [0, 0, 0, 0, 0, 0, 0, 0, 0, 0, 0, 0, 0, 0, 0],
      [0, 0, 0, 0, 0, 0, 0, 0, 0, 0, 0, 0, 0, 0, 0]]"

definition rowCells :: "nat \<Rightarrow> nat list \<Rightarrow> move list" where
  "rowCells i js = map (\<lambda>j. \<lparr>row = i, col = j\<rparr>) js"

definition candidatesB :: "move list" where
  "candidatesB =
     rowCells 5 [1, 2, 3, 4, 5, 6, 7, 8] @ rowCells 6 [1, 2, 3, 4, 5, 6, 7, 8]
     @ rowCells 7 [1, 2, 7, 8] @ rowCells 8 [1, 2, 3, 4, 5, 6, 7, 8]
     @ rowCells 9 [1, 2, 3, 4, 5, 6, 7, 8]"

section \<open>Properties\<close>

subsection \<open>The line evaluator\<close>

lemma cellAt_Some_readCell: "cellAt b r c = Some v \<Longrightarrow> readCell b r c = Inr (Some v)"
  by (auto simp: cellAt_def split: sum.splits)

lemma countLine_inb:
  assumes "\<forall>i\<in>set is. cellAt b (r + i * dx) (c + i * dy) \<noteq> None"
  shows "countLine b r c dx dy p q is (pc, oc, ec) =
     Inr (pc + countOf (Some p) (map (\<lambda>i. cellAt b (r + i * dx) (c + i * dy)) is),
          oc + length (filter (\<lambda>x. x \<noteq> Some p \<and> x = Some q) (map (\<lambda>i. cellAt b (r + i * dx) (c + i * dy)) is)),
          ec + length (filter (\<lambda>x. x \<noteq> Some p \<and> x \<noteq> Some q) (map (\<lambda>i. cellAt b (r + i * dx) (c + i * dy)) is)))"
  using assms
proof (induction "is" arbitrary: pc oc ec)
  case Nil
  then show ?case by (simp add: countOf_def)
next
  case (Cons i "is")
  from Cons.prems obtain v where v: "cellAt b (r + i * dx) (c + i * dy) = Some v" by auto
  then have rd: "readCell b (r + i * dx) (c + i * dy) = Inr (Some v)" by (rule cellAt_Some_readCell)
  from Cons.prems have rest: "\<forall>i\<in>set is. cellAt b (r + i * dx) (c + i * dy) \<noteq> None" by simp
  show ?case
    by (simp add: rd v Cons.IH[OF rest] countOf_def)
qed

lemma countLine_total:
  "countLine b r c dx dy p q is (pc, oc, ec) = Inr (pc', oc', ec')
   \<Longrightarrow> pc' + oc' + ec' = pc + oc + ec + length is"
proof (induction "is" arbitrary: pc oc ec)
  case Nil
  then show ?case by simp
next
  case (Cons i "is")
  then show ?case
    by (auto split: sum.splits if_splits)
qed

lemma lineCounts_total:
  "lineCounts b r c dx dy p q = Inr (pc, oc, ec) \<Longrightarrow> pc + oc + ec = 5"
  unfolding lineCounts_def by (drule countLine_total) simp


lemma lineCounts_inb:
  assumes "windowInBounds b r c dx dy"
  shows "lineCounts b r c dx dy p q =
     Inr (countOf (Some p) (windowCells b r c dx dy),
          length (filter (\<lambda>x. x \<noteq> Some p \<and> x = Some q) (windowCells b r c dx dy)),
          length (filter (\<lambda>x. x \<noteq> Some p \<and> x \<noteq> Some q) (windowCells b r c dx dy)))"
proof -
  have inb: "\<forall>i\<in>set [0, 1, 2, 3, 4]. cellAt b (r + i * dx) (c + i * dy) \<noteq> None"
    using assms unfolding windowInBounds_def windowCells_def by (metis (no_types, lifting) image_eqI list.set_map)
  show ?thesis
    unfolding lineCounts_def windowCells_def
    using countLine_inb[OF inb, of p q 0 0 0] by simp
qed

lemma getPatternScore_table:
  "cnt + emp \<le> 5 \<Longrightarrow> getPatternScore cnt emp = patternTable cnt emp"
  by (auto simp: patternTable_def FIVE_def OPEN_FOUR_def FOUR_def OPEN_THREE_def THREE_def
      OPEN_TWO_def TWO_def)

lemma lineScore_values:
  assumes "pc + oc + ec = 5"
  shows "lineScore (pc, oc, ec) \<in> {0, 100, 1000, 10000, 100000, - 90, - 900, - 9000, - 90000}"
proof -
  have "pc \<in> {0, 1, 2, 3, 4, 5}" "oc \<in> {0, 1, 2, 3, 4, 5}"
    using assms by auto
  moreover have "ec = 5 - pc - oc" using assms by simp
  ultimately show ?thesis
    by (auto simp: lineScore_def FIVE_def OPEN_FOUR_def FOUR_def OPEN_THREE_def THREE_def
        OPEN_TWO_def TWO_def)
qed

text \<open>
  C4: on an in-bounds window whose cells hold \<open>EMPTY\<close>, the mover or the opponent, the
  line evaluator returns 0 when both players have stones in it and when it is all empty,
  the table's score for the mover's count and the empty count when only the mover has
  stones, and -0.9 times the table's score for the opponent's counts when only the
  opponent has; \<open>getPatternScore\<close> is the table on every pair of counts of a window.
\<close>

theorem evaluateLine_table:
  assumes inb: "windowInBounds b r c dx dy"
    and wf: "\<forall>v. Some v \<in> set (windowCells b r c dx dy) \<longrightarrow> v \<in> {EMPTY, player, opponent}"
    and ne: "player \<noteq> opponent" "player \<noteq> EMPTY" "opponent \<noteq> EMPTY"
  shows "evaluateLine b r c dx dy player opponent = Inr
     (let pc = countOf (Some player) (windowCells b r c dx dy);
          oc = countOf (Some opponent) (windowCells b r c dx dy);
          ec = countOf (Some EMPTY) (windowCells b r c dx dy)
      in if pc > 0 \<and> oc > 0 then 0
         else if pc > 0 then patternTable pc ec
         else if oc > 0 then - (9 / 10) * patternTable oc ec
         else 0)
     \<and> (\<forall>cnt emp. cnt + emp \<le> 5 \<longrightarrow> getPatternScore cnt emp = patternTable cnt emp)"
proof -
  let ?cells = "windowCells b r c dx dy"
  have opp: "filter (\<lambda>x. x \<noteq> Some player \<and> x = Some opponent) ?cells
      = filter (\<lambda>x. x = Some opponent) ?cells"
    using ne by (intro filter_cong) auto
  have cellsome: "\<And>x. x \<in> set ?cells \<Longrightarrow> x \<in> {Some EMPTY, Some player, Some opponent}"
  proof -
    fix x assume x: "x \<in> set ?cells"
    with inb have "x \<noteq> None" unfolding windowInBounds_def by metis
    then obtain v where "x = Some v" by (cases x) auto
    with wf x show "x \<in> {Some EMPTY, Some player, Some opponent}" by auto
  qed
  have emp: "filter (\<lambda>x. x \<noteq> Some player \<and> x \<noteq> Some opponent) ?cells
      = filter (\<lambda>x. x = Some EMPTY) ?cells"
    using ne cellsome by (intro filter_cong) auto
  have cnt: "lineCounts b r c dx dy player opponent =
      Inr (countOf (Some player) ?cells, countOf (Some opponent) ?cells, countOf (Some EMPTY) ?cells)"
    using lineCounts_inb[OF inb, of player opponent] by (simp add: opp emp countOf_def)
  have tot: "countOf (Some player) ?cells + countOf (Some opponent) ?cells
      + countOf (Some EMPTY) ?cells = 5"
    using cnt by (rule lineCounts_total)
  have "evaluateLine b r c dx dy player opponent =
      Inr (lineScore (countOf (Some player) ?cells, countOf (Some opponent) ?cells,
                      countOf (Some EMPTY) ?cells))"
    by (simp add: evaluateLine_def cnt)
  moreover have "lineScore (countOf (Some player) ?cells, countOf (Some opponent) ?cells,
                      countOf (Some EMPTY) ?cells) =
     (let pc = countOf (Some player) ?cells;
          oc = countOf (Some opponent) ?cells;
          ec = countOf (Some EMPTY) ?cells
      in if pc > 0 \<and> oc > 0 then 0
         else if pc > 0 then patternTable pc ec
         else if oc > 0 then - (9 / 10) * patternTable oc ec
         else 0)"
    using tot getPatternScore_table[of "countOf (Some player) ?cells" "countOf (Some EMPTY) ?cells"]
      getPatternScore_table[of "countOf (Some opponent) ?cells" "countOf (Some EMPTY) ?cells"]
    by (simp add: lineScore_def Let_def del: getPatternScore.simps)
  ultimately show ?thesis
    using getPatternScore_table by simp
qed

theorem evaluateLine_table_witness:
  "windowInBounds [[2, 2, 2, 2, 0]] 0 0 0 1
   \<and> evaluateLine [[2, 2, 2, 2, 0]] 0 0 0 1 BLACK WHITE = Inr (- 9000)"
proof -
  have inb: "windowInBounds [[2, 2, 2, 2, 0]] 0 0 0 1"
    by (simp add: windowInBounds_def windowCells_def cellAt_def readCell_def lookup_def)
  have wf: "\<forall>v. Some v \<in> set (windowCells [[2, 2, 2, 2, 0]] 0 0 0 1) \<longrightarrow> v \<in> {EMPTY, BLACK, WHITE}"
    by (simp add: windowCells_def cellAt_def readCell_def lookup_def EMPTY_def BLACK_def WHITE_def)
  have ne: "BLACK \<noteq> WHITE" "BLACK \<noteq> EMPTY" "WHITE \<noteq> EMPTY"
    by (simp_all add: EMPTY_def BLACK_def WHITE_def)
  show ?thesis
    using evaluateLine_table[OF inb wf ne] inb
    by (simp add: windowCells_def cellAt_def readCell_def lookup_def countOf_def patternTable_def
        EMPTY_def BLACK_def WHITE_def)
qed

subsection \<open>The position evaluator never throws\<close>

lemma lineCalls_rows:
  assumes "(r, c, dx, dy) \<in> set (lineCalls n)"
  shows "0 \<le> r \<and> 0 \<le> dx \<and> r + 4 * dx < int n"
proof -
  from assms obtain i j where "i < n" "j < n" "(r, c, dx, dy) \<in> set (cellCalls n i j)"
    unfolding lineCalls_def by auto
  then show ?thesis
    by (auto simp: cellCalls_def split: if_splits)
qed

lemma countLine_no_fault:
  assumes "\<forall>i\<in>set is. 0 \<le> r + i * dx \<and> r + i * dx < int (length b)"
  shows "\<exists>cnt. countLine b r c dx dy p q is (pc, oc, ec) = Inr cnt"
  using assms
proof (induction "is" arbitrary: pc oc ec)
  case Nil
  then show ?case by simp
next
  case (Cons i "is")
  from Cons.prems have "\<exists>v. readCell b (r + i * dx) (c + i * dy) = Inr v"
    by (simp add: readCell_def lookup_def)
  then obtain v where v: "readCell b (r + i * dx) (c + i * dy) = Inr v" ..
  from Cons.prems have rest: "\<forall>i\<in>set is. 0 \<le> r + i * dx \<and> r + i * dx < int (length b)" by simp
  show ?case
    using Cons.IH[OF rest] by (simp add: v)
qed

lemma lineCounts_no_fault:
  assumes "0 \<le> r" "0 \<le> dx" "r + 4 * dx < int (length b)"
  shows "\<exists>cnt. lineCounts b r c dx dy p q = Inr cnt"
proof -
  have "\<forall>i\<in>set [0, 1, 2, 3, 4]. 0 \<le> r + i * dx \<and> r + i * dx < int (length b)"
    using assms by auto
  from countLine_no_fault[OF this]
  show ?thesis unfolding lineCounts_def by blast
qed

lemma evaluateLine_no_fault:
  assumes "0 \<le> r" "0 \<le> dx" "r + 4 * dx < int (length b)"
  shows "\<exists>v. evaluateLine b r c dx dy p q = Inr v"
proof -
  from lineCounts_no_fault[OF assms]
  obtain cnt where "lineCounts b r c dx dy p q = Inr cnt" by blast
  then show ?thesis by (simp add: evaluateLine_def)
qed

lemma sumLines_no_fault:
  assumes "\<forall>(r, c, dx, dy)\<in>set calls. 0 \<le> r \<and> 0 \<le> dx \<and> r + 4 * dx < int (length b)"
  shows "\<exists>s. sumLines b p q score calls = Inr s"
  using assms
proof (induction calls arbitrary: score)
  case Nil
  then show ?case by simp
next
  case (Cons call calls)
  obtain r c dx dy where call: "call = (r, c, dx, dy)" by (cases call) auto
  with Cons.prems have "0 \<le> r" "0 \<le> dx" "r + 4 * dx < int (length b)" by auto
  from evaluateLine_no_fault[OF this]
  obtain v where v: "evaluateLine b r c dx dy p q = Inr v" by blast
  from Cons.prems have "\<forall>(r, c, dx, dy)\<in>set calls. 0 \<le> r \<and> 0 \<le> dx \<and> r + 4 * dx < int (length b)"
    by simp
  from Cons.IH[OF this] show ?case by (simp add: call v)
qed

lemma evaluatePosition_total: "evaluatePosition b player = Inr (positionScore b player)"
proof -
  have "\<forall>(r, c, dx, dy)\<in>set (lineCalls (length b)). 0 \<le> r \<and> 0 \<le> dx \<and> r + 4 * dx < int (length b)"
    using lineCalls_rows by blast
  from sumLines_no_fault[OF this]
  obtain s where "evaluatePosition b player = Inr s"
    unfolding evaluatePosition_def by blast
  then show ?thesis by (simp add: positionScore_def)
qed

lemma lineCalls_small: "n < 5 \<Longrightarrow> lineCalls n = []"
  by (simp add: lineCalls_def cellCalls_def)

text \<open>
  C10: on every in-bounds window the three counters of the line evaluator add up to 5,
  so a call of \<open>getPatternScore\<close> never has the arguments \<open>(4, 0)\<close>, \<open>(3, 1)\<close> or
  \<open>(2, 2)\<close> of the blocked patterns, and the result is one of
  0, 100, 1000, 10000, 100000, -90, -900, -9000, -90000. The same holds of every call
  of the line evaluator that the position evaluator makes, on any board: a position
  score is a sum of such values.
\<close>

theorem evaluateLine_value_set:
  assumes "windowInBounds b r c dx dy"
  shows "(\<exists>pc oc ec. lineCounts b r c dx dy player opponent = Inr (pc, oc, ec)
       \<and> pc + oc + ec = 5
       \<and> (pc > 0 \<and> oc = 0 \<longrightarrow> (pc, ec) \<notin> {(4, 0), (3, 1), (2, 2)})
       \<and> (oc > 0 \<and> pc = 0 \<longrightarrow> (oc, ec) \<notin> {(4, 0), (3, 1), (2, 2)})
       \<and> evaluateLine b r c dx dy player opponent = Inr (lineScore (pc, oc, ec))
       \<and> lineScore (pc, oc, ec) \<in> {0, 100, 1000, 10000, 100000, - 90, - 900, - 9000, - 90000})
     \<and> (\<forall>(r', c', dx', dy')\<in>set (lineCalls (length b')).
          \<exists>pc oc ec. lineCounts b' r' c' dx' dy' player opponent = Inr (pc, oc, ec)
            \<and> pc + oc + ec = 5
            \<and> evaluateLine b' r' c' dx' dy' player opponent = Inr (lineScore (pc, oc, ec))
            \<and> lineScore (pc, oc, ec) \<in> {0, 100, 1000, 10000, 100000, - 90, - 900, - 9000, - 90000})"
proof
  obtain pc oc ec where cnt: "lineCounts b r c dx dy player opponent = Inr (pc, oc, ec)"
    using lineCounts_inb[OF assms] by blast
  have tot: "pc + oc + ec = 5" using cnt by (rule lineCounts_total)
  have "pc > 0 \<and> oc = 0 \<longrightarrow> (pc, ec) \<notin> {(4, 0), (3, 1), (2, 2)}"
    using tot by auto
  moreover have "oc > 0 \<and> pc = 0 \<longrightarrow> (oc, ec) \<notin> {(4, 0), (3, 1), (2, 2)}"
    using tot by auto
  moreover have "evaluateLine b r c dx dy player opponent = Inr (lineScore (pc, oc, ec))"
    by (simp add: evaluateLine_def cnt)
  ultimately show "\<exists>pc oc ec. lineCounts b r c dx dy player opponent = Inr (pc, oc, ec)
       \<and> pc + oc + ec = 5
       \<and> (pc > 0 \<and> oc = 0 \<longrightarrow> (pc, ec) \<notin> {(4, 0), (3, 1), (2, 2)})
       \<and> (oc > 0 \<and> pc = 0 \<longrightarrow> (oc, ec) \<notin> {(4, 0), (3, 1), (2, 2)})
       \<and> evaluateLine b r c dx dy player opponent = Inr (lineScore (pc, oc, ec))
       \<and> lineScore (pc, oc, ec) \<in> {0, 100, 1000, 10000, 100000, - 90, - 900, - 9000, - 90000}"
    using cnt tot lineScore_values[OF tot] by blast
next
  show "\<forall>(r', c', dx', dy')\<in>set (lineCalls (length b')).
          \<exists>pc oc ec. lineCounts b' r' c' dx' dy' player opponent = Inr (pc, oc, ec)
            \<and> pc + oc + ec = 5
            \<and> evaluateLine b' r' c' dx' dy' player opponent = Inr (lineScore (pc, oc, ec))
            \<and> lineScore (pc, oc, ec) \<in> {0, 100, 1000, 10000, 100000, - 90, - 900, - 9000, - 90000}"
  proof (intro ballI, clarify)
    fix r' c' dx' dy' assume "(r', c', dx', dy') \<in> set (lineCalls (length b'))"
    from lineCalls_rows[OF this]
    have "0 \<le> r'" "0 \<le> dx'" "r' + 4 * dx' < int (length b')" by simp_all
    from lineCounts_no_fault[OF this]
    obtain pc oc ec where cnt: "lineCounts b' r' c' dx' dy' player opponent = Inr (pc, oc, ec)"
      using prod_cases3 by metis
    have tot: "pc + oc + ec = 5" using cnt by (rule lineCounts_total)
    have "evaluateLine b' r' c' dx' dy' player opponent = Inr (lineScore (pc, oc, ec))"
      by (simp add: evaluateLine_def cnt)
    then show "\<exists>pc oc ec. lineCounts b' r' c' dx' dy' player opponent = Inr (pc, oc, ec)
            \<and> pc + oc + ec = 5
            \<and> evaluateLine b' r' c' dx' dy' player opponent = Inr (lineScore (pc, oc, ec))
            \<and> lineScore (pc, oc, ec) \<in> {0, 100, 1000, 10000, 100000, - 90, - 900, - 9000, - 90000}"
      using cnt tot lineScore_values[OF tot] by blast
  qed
qed

theorem evaluateLine_value_set_witness:
  "windowInBounds [[1, 1, 0, 0, 0]] 0 0 0 1
   \<and> lineCounts [[1, 1, 0, 0, 0]] 0 0 0 1 BLACK WHITE = Inr (2, 0, 3)
   \<and> evaluateLine [[1, 1, 0, 0, 0]] 0 0 0 1 BLACK WHITE = Inr 100"
proof -
  have inb: "windowInBounds [[1, 1, 0, 0, 0]] 0 0 0 1"
    by (simp add: windowInBounds_def windowCells_def cellAt_def readCell_def lookup_def)
  have cnt: "lineCounts [[1, 1, 0, 0, 0]] 0 0 0 1 BLACK WHITE = Inr (2, 0, 3)"
    by (simp add: lineCounts_def readCell_def lookup_def BLACK_def WHITE_def)
  from evaluateLine_value_set[OF inb, of BLACK WHITE] cnt
  have "evaluateLine [[1, 1, 0, 0, 0]] 0 0 0 1 BLACK WHITE = Inr (lineScore (2, 0, 3))"
    by auto
  then show ?thesis
    using inb cnt by (simp add: lineScore_def OPEN_TWO_def)
qed

subsection \<open>Place and undo\<close>

lemma isEmpty_iff:
  "isEmpty b m \<longleftrightarrow> row m < length b \<and> col m < length (b ! row m) \<and> b ! row m ! col m = EMPTY"
  by (auto simp: isEmpty_def cellAt_def readCell_def lookup_def split: option.splits)

lemma setCell_undo:
  assumes "isEmpty b m"
  shows "setCell (setCell b m v) m EMPTY = b"
proof -
  from assms have r: "row m < length b" and e: "b ! row m ! col m = EMPTY"
    by (simp_all add: isEmpty_iff)
  have "(b ! row m)[col m := EMPTY] = b ! row m"
    using e by (metis list_update_id)
  then show ?thesis
    using r by (simp add: setCell_def)
qed

lemma getValidMoves_empty: "m \<in> set (getValidMoves b) \<Longrightarrow> isEmpty b m"
  by (auto simp: getValidMoves_def Let_def split: if_splits)


subsection \<open>The search returns a finite score and the board it was given\<close>

lemma max_Fin_cases:
  "x \<noteq> PosInf \<Longrightarrow> max x (Fin s) \<noteq> PosInf \<and> max x (Fin s) \<noteq> NegInf"
  by (cases x) (auto simp: max_def)

lemma min_Fin_cases:
  "x \<noteq> NegInf \<Longrightarrow> min x (Fin s) \<noteq> NegInf \<and> min x (Fin s) \<noteq> PosInf"
  by (cases x) (auto simp: min_def)

lemma search_frame:
  "\<exists>s. minimax b depth alpha beta isMax player opponent = Inr (Fin s, b)"
  "(\<forall>m\<in>set ms. isEmpty b m) \<longrightarrow> maxScore \<noteq> PosInf \<longrightarrow>
     (\<exists>s. maxLoop b depth alpha beta player opponent ms maxScore = Inr (s, b) \<and> s \<noteq> PosInf
        \<and> (ms \<noteq> [] \<or> maxScore \<noteq> NegInf \<longrightarrow> s \<noteq> NegInf))"
  "(\<forall>m\<in>set ms. isEmpty b m) \<longrightarrow> minScore \<noteq> NegInf \<longrightarrow>
     (\<exists>s. minLoop b depth alpha beta player opponent ms minScore = Inr (s, b) \<and> s \<noteq> NegInf
        \<and> (ms \<noteq> [] \<or> minScore \<noteq> PosInf \<longrightarrow> s \<noteq> PosInf))"
proof (induction b depth alpha beta isMax player opponent
    and b depth alpha beta player opponent ms maxScore
    and b depth alpha beta player opponent ms minScore
    rule: minimax_maxLoop_minLoop.induct)
  case (1 b depth alpha beta isMaximizing player opponent)
  show ?case
  proof (cases "depth = 0 \<or> getValidMoves b = []")
    case True
    then show ?thesis
      by (auto simp: minimax.simps[of b depth] evaluatePosition_total Let_def)
  next
    case False
    then have d: "depth \<noteq> 0" and v: "getValidMoves b \<noteq> []" by simp_all
    have emp: "\<forall>m\<in>set (getValidMoves b). isEmpty b m"
      using getValidMoves_empty by blast
    show ?thesis
    proof (cases isMaximizing)
      case True
      from "1.IH"(1)[OF d refl v True] emp v
      obtain s where "maxLoop b depth alpha beta player opponent (getValidMoves b) NegInf = Inr (s, b)"
        "s \<noteq> PosInf" "s \<noteq> NegInf" by auto
      then show ?thesis
        using d v True by (cases s) (auto simp: minimax.simps[of b depth] Let_def)
    next
      case False
      from "1.IH"(2)[OF d refl v False] emp v
      obtain s where "minLoop b depth alpha beta player opponent (getValidMoves b) PosInf = Inr (s, b)"
        "s \<noteq> PosInf" "s \<noteq> NegInf" by auto
      then show ?thesis
        using d v False by (cases s) (auto simp: minimax.simps[of b depth] Let_def)
    qed
  qed
next
  case (2 b depth alpha beta player opponent maxScore)
  show ?case by simp
next
  case (3 b depth alpha beta player opponent m ms maxScore)
  show ?case
  proof (intro impI)
    assume emp: "\<forall>m\<in>set (m # ms). isEmpty b m" and fin: "maxScore \<noteq> PosInf"
    then have undo: "setCell (setCell b m player) m EMPTY = b"
      by (simp add: setCell_undo)
    show "\<exists>s. maxLoop b depth alpha beta player opponent (m # ms) maxScore = Inr (s, b) \<and> s \<noteq> PosInf
        \<and> (m # ms \<noteq> [] \<or> maxScore \<noteq> NegInf \<longrightarrow> s \<noteq> NegInf)"
    proof (cases "checkWin (setCell b m player) (int (row m)) (int (col m)) player")
      case True
      then show ?thesis by (simp add: undo)
    next
      case False
      from "3.IH"(1)[OF refl False]
      obtain s where s: "minimax (setCell b m player) (depth - 1) alpha beta False player opponent
          = Inr (Fin s, setCell b m player)" by blast
      show ?thesis
      proof (cases "beta \<le> max alpha (Fin s)")
        case True
        then show ?thesis
          using False s undo max_Fin_cases[OF fin, of s] by (simp add: Let_def)
      next
        case nb: False
        have "(\<forall>m\<in>set ms. isEmpty b m) \<longrightarrow> max maxScore (Fin s) \<noteq> PosInf \<longrightarrow>
           (\<exists>s'. maxLoop b depth (max alpha (Fin s)) beta player opponent ms (max maxScore (Fin s))
               = Inr (s', b) \<and> s' \<noteq> PosInf
             \<and> (ms \<noteq> [] \<or> max maxScore (Fin s) \<noteq> NegInf \<longrightarrow> s' \<noteq> NegInf))"
          using "3.IH"(2)[OF refl False s refl _ refl refl nb, of b] undo by simp
        then show ?thesis
          using False s undo nb emp max_Fin_cases[OF fin, of s] by (simp add: Let_def)
      qed
    qed
  qed
next
  case (4 b depth alpha beta player opponent minScore)
  show ?case by simp
next
  case (5 b depth alpha beta player opponent m ms minScore)
  show ?case
  proof (intro impI)
    assume emp: "\<forall>m\<in>set (m # ms). isEmpty b m" and fin: "minScore \<noteq> NegInf"
    then have undo: "setCell (setCell b m opponent) m EMPTY = b"
      by (simp add: setCell_undo)
    show "\<exists>s. minLoop b depth alpha beta player opponent (m # ms) minScore = Inr (s, b) \<and> s \<noteq> NegInf
        \<and> (m # ms \<noteq> [] \<or> minScore \<noteq> PosInf \<longrightarrow> s \<noteq> PosInf)"
    proof (cases "checkWin (setCell b m opponent) (int (row m)) (int (col m)) opponent")
      case True
      then show ?thesis by (simp add: undo)
    next
      case False
      from "5.IH"(1)[OF refl False]
      obtain s where s: "minimax (setCell b m opponent) (depth - 1) alpha beta True player opponent
          = Inr (Fin s, setCell b m opponent)" by blast
      show ?thesis
      proof (cases "min beta (Fin s) \<le> alpha")
        case True
        then show ?thesis
          using False s undo min_Fin_cases[OF fin, of s] by (simp add: Let_def)
      next
        case nb: False
        have "(\<forall>m\<in>set ms. isEmpty b m) \<longrightarrow> min minScore (Fin s) \<noteq> NegInf \<longrightarrow>
           (\<exists>s'. minLoop b depth alpha (min beta (Fin s)) player opponent ms (min minScore (Fin s))
               = Inr (s', b) \<and> s' \<noteq> NegInf
             \<and> (ms \<noteq> [] \<or> min minScore (Fin s) \<noteq> PosInf \<longrightarrow> s' \<noteq> PosInf))"
          using "5.IH"(2)[OF refl False s refl _ refl refl nb, of b] undo by simp
        then show ?thesis
          using False s undo nb emp min_Fin_cases[OF fin, of s] by (simp add: Let_def)
      qed
    qed
  qed
qed

subsection \<open>The loops of the move selector\<close>

lemma pickBest_none:
  "\<forall>m\<in>set ms. f m \<le> bs \<Longrightarrow> pickBest f ms bm bs = bm"
  by (induction ms) auto

lemma pickBest_first_max:
  assumes "\<exists>m\<in>set ms. bs < f m"
  shows "\<exists>i. isFirstMax f ms i \<and> pickBest f ms bm bs = Some (ms ! i) \<and> bs < f (ms ! i)"
  using assms
proof (induction ms arbitrary: bm bs)
  case Nil
  then show ?case by simp
next
  case (Cons m ms)
  show ?case
  proof (cases "bs < f m")
    case True
    show ?thesis
    proof (cases "\<exists>m'\<in>set ms. f m < f m'")
      case ex: True
      from Cons.IH[OF ex, of "Some m"]
      obtain i where i: "isFirstMax f ms i" "pickBest f ms (Some m) (f m) = Some (ms ! i)"
        "f m < f (ms ! i)" by blast
      have "isFirstMax f (m # ms) (Suc i)"
        using i(1,3) unfolding isFirstMax_def
        by (auto simp: less_Suc_eq_0_disj nth_Cons')
      then show ?thesis
        using i True by (intro exI[of _ "Suc i"]) auto
    next
      case nex: False
      then have le: "\<forall>m'\<in>set ms. f m' \<le> f m" by auto
      then have "pickBest f ms (Some m) (f m) = Some m" by (rule pickBest_none)
      moreover have "isFirstMax f (m # ms) 0"
      proof -
        have "f ((m # ms) ! j) \<le> f m" if "j < Suc (length ms)" for j
          using that le by (cases j) auto
        then show ?thesis unfolding isFirstMax_def by simp
      qed
      ultimately show ?thesis
        using True by (intro exI[of _ 0]) auto
    qed
  next
    case False
    with Cons.prems have ex: "\<exists>m'\<in>set ms. bs < f m'" by auto
    from Cons.IH[OF ex, of bm]
    obtain i where i: "isFirstMax f ms i" "pickBest f ms bm bs = Some (ms ! i)"
      "bs < f (ms ! i)" by blast
    have "f m < f (ms ! i)" using False i(3) by auto
    then have "isFirstMax f (m # ms) (Suc i)"
      using i(1) unfolding isFirstMax_def
      by (auto simp: less_Suc_eq_0_disj nth_Cons')
    then show ?thesis
      using i False by (intro exI[of _ "Suc i"]) auto
  qed
qed

lemma NegInf_less_Fin: "NegInf < Fin x"
  by (simp add: less_jsnum_def)

lemma easyLoop_pick:
  assumes "\<forall>m\<in>set ms. isEmpty b m"
  shows "easyLoop b player (otherPlayer player) ms bm bs
     = Inr (pickBest (combinedScore b player) ms bm bs, b)"
  using assms
proof (induction ms arbitrary: bm bs)
  case Nil
  then show ?case by simp
next
  case (Cons m ms)
  then have e: "isEmpty b m" and rest: "\<forall>m\<in>set ms. isEmpty b m" by simp_all
  show ?case
    by (simp add: Let_def evaluatePosition_total setCell_undo[OF e] Cons.IH[OF rest]
        combinedScore_def algebra_simps)
qed

lemma searchFrom_eq:
  "minimax (setCell b m player) 2 NegInf PosInf isMax player (otherPlayer player)
     = Inr (searchFrom isMax b player m, setCell b m player)"
  using search_frame(1)[of "setCell b m player" 2 NegInf PosInf isMax player "otherPlayer player"]
  by (auto simp: searchFrom_def)

lemma searchFrom_finite: "\<exists>s. searchFrom isMax b player m = Fin s"
  using search_frame(1)[of "setCell b m player" 2 NegInf PosInf isMax player "otherPlayer player"]
  by (auto simp: searchFrom_def)

lemma hardLoop_pick:
  assumes "\<forall>m\<in>set ms. isEmpty b m"
  shows "hardLoop b player (otherPlayer player) ms bm bs
     = Inr (pickBest (searchFrom False b player) ms bm bs, b)"
  using assms
proof (induction ms arbitrary: bm bs)
  case Nil
  then show ?case by simp
next
  case (Cons m ms)
  then have e: "isEmpty b m" and rest: "\<forall>m\<in>set ms. isEmpty b m" by simp_all
  show ?case
    by (simp add: Let_def searchFrom_eq setCell_undo[OF e] Cons.IH[OF rest])
qed

lemma scoreMoves_eq:
  assumes "\<forall>m\<in>set ms. isEmpty b m"
  shows "scoreMoves b player ms = Inr (map (\<lambda>m. (m, staticScore b player m)) ms, b)"
  using assms
proof (induction ms)
  case Nil
  then show ?case by simp
next
  case (Cons m ms)
  then have e: "isEmpty b m" and rest: "\<forall>m\<in>set ms. isEmpty b m" by simp_all
  show ?case
    by (simp add: Let_def evaluatePosition_total setCell_undo[OF e] Cons.IH[OF rest] staticScore_def)
qed

lemma mediumLoop_frame:
  assumes "\<forall>m\<in>set ms. isEmpty b m"
  shows "\<exists>g. mediumLoop b player ms good bs = Inr (g, b) \<and> set g \<subseteq> set good \<union> set ms
     \<and> (good \<noteq> [] \<or> (bs = NegInf \<and> ms \<noteq> []) \<longrightarrow> g \<noteq> [])"
  using assms
proof (induction ms arbitrary: good bs)
  case Nil
  then show ?case by simp
next
  case (Cons m ms)
  then have e: "isEmpty b m" and rest: "\<forall>m\<in>set ms. isEmpty b m" by simp_all
  let ?s = "Fin (positionScore (setCell b m player) player)"
  consider (gt) "bs < ?s" | (eq) "\<not> bs < ?s" "?s = bs" | (lt) "\<not> bs < ?s" "?s \<noteq> bs"
    by blast
  then show ?case
  proof cases
    case gt
    from Cons.IH[OF rest, of "[m]" ?s]
    obtain g where "mediumLoop b player ms [m] ?s = Inr (g, b)" "set g \<subseteq> set [m] \<union> set ms" "g \<noteq> []"
      by auto
    then show ?thesis
      using gt by (auto simp: Let_def evaluatePosition_total setCell_undo[OF e])
  next
    case eq
    from Cons.IH[OF rest, of "good @ [m]" bs]
    obtain g where "mediumLoop b player ms (good @ [m]) bs = Inr (g, b)"
      "set g \<subseteq> set (good @ [m]) \<union> set ms" "g \<noteq> []"
      by auto
    then show ?thesis
      using eq by (auto simp: Let_def evaluatePosition_total setCell_undo[OF e])
  next
    case lt
    then have "bs \<noteq> NegInf" using NegInf_less_Fin by auto
    with Cons.IH[OF rest, of good bs]
    obtain g where "mediumLoop b player ms good bs = Inr (g, b)"
      "set g \<subseteq> set good \<union> set ms" "good \<noteq> [] \<longrightarrow> g \<noteq> []"
      by auto
    then show ?thesis
      using lt \<open>bs \<noteq> NegInf\<close> by (auto simp: Let_def evaluatePosition_total setCell_undo[OF e])
  qed
qed

lemma kept_subset:
  "set (map fst (take n (sortDesc (map (\<lambda>m. (m, g m)) ms)))) \<subseteq> set ms"
proof -
  have "set (take n (sortDesc (map (\<lambda>m. (m, g m)) ms))) \<subseteq> set (map (\<lambda>m. (m, g m)) ms)"
    using set_take_subset[of n "sortDesc (map (\<lambda>m. (m, g m)) ms)"] by (simp add: sortDesc_def)
  then show ?thesis by auto
qed

lemma getBestMove_frame: "\<exists>mv. getBestMove b player difficulty rnd = Inr (mv, b)"
proof -
  have emp: "\<forall>m\<in>set (getValidMoves b). isEmpty b m"
    using getValidMoves_empty by blast
  have kept: "\<forall>m\<in>set (map fst (take 8 (sortDesc (map (\<lambda>m. (m, staticScore b player m)) (getValidMoves b))))).
      isEmpty b m"
    using kept_subset[of 8 "staticScore b player" "getValidMoves b"] emp by blast
  obtain g where "mediumLoop b player (getValidMoves b) [] NegInf = Inr (g, b)"
    using mediumLoop_frame[OF emp] by blast
  then show ?thesis
    unfolding getBestMove_def Let_def
    by (simp add: easyLoop_pick[OF emp] scoreMoves_eq[OF emp] hardLoop_pick[OF kept])
qed

text \<open>
  C1: for every board, mover and difficulty, \<open>getBestMove\<close> returns (it does not throw)
  and leaves the board with the contents it had at the call; so does every call of
  \<open>minimax\<close>, whatever its depth, bounds and side, early win returns and pruned
  branches included.
\<close>

theorem getBestMove_restores_board:
  "(\<exists>mv. getBestMove b player difficulty rnd = Inr (mv, b))
   \<and> (\<exists>s. minimax b depth alpha beta isMax player opponent = Inr (s, b))"
  using getBestMove_frame[of b player difficulty rnd]
    search_frame(1)[of b depth alpha beta isMax player opponent]
  by blast

theorem getBestMove_restores_board_witness:
  "(\<exists>mv. getBestMove [[0, 1], [2, 0]] BLACK ''hard'' 0 = Inr (mv, [[0, 1], [2, 0]]))
   \<and> (\<exists>s. minimax [[0, 1], [2, 0]] 2 NegInf PosInf False BLACK WHITE = Inr (s, [[0, 1], [2, 0]]))"
  using getBestMove_restores_board[of "[[0, 1], [2, 0]]" BLACK "''hard''" 0 2 NegInf PosInf False WHITE]
  by simp

subsection \<open>What the move selector returns\<close>

lemma set_cellsOf: "set (cellsOf n) = {m. row m < n \<and> col m < n}"
proof (intro set_eqI iffI)
  fix m assume "m \<in> set (cellsOf n)"
  then show "m \<in> {m. row m < n \<and> col m < n}"
    by (auto simp: cellsOf_def)
next
  fix m :: move assume "m \<in> {m. row m < n \<and> col m < n}"
  then have rc: "row m < n" "col m < n" by simp_all
  have "(\<lambda>j. \<lparr>row = row m, col = j\<rparr>) (col m) \<in> (\<lambda>j. \<lparr>row = row m, col = j\<rparr>) ` {0..<n}"
    using rc(2) by (intro imageI) simp
  moreover have "\<lparr>row = row m, col = col m\<rparr> = m" by (cases m) simp
  ultimately have "m \<in> set (map (\<lambda>j. \<lparr>row = row m, col = j\<rparr>) [0..<n])"
    by simp
  then show "m \<in> set (cellsOf n)"
    unfolding cellsOf_def using rc(1) by auto
qed

lemma getValidMoves_Nil_iff:
  "getValidMoves b = [] \<longleftrightarrow> (\<forall>m\<in>set (cellsOf (length b)). \<not> isEmpty b m)"
  by (auto simp: getValidMoves_def Let_def filter_empty_conv)

lemma no_empty_cell_iff:
  assumes "square b"
  shows "(\<forall>m\<in>set (cellsOf (length b)). \<not> isEmpty b m) \<longleftrightarrow> (\<forall>rw\<in>set b. EMPTY \<notin> set rw)"
proof
  assume l: "\<forall>m\<in>set (cellsOf (length b)). \<not> isEmpty b m"
  show "\<forall>rw\<in>set b. EMPTY \<notin> set rw"
  proof (intro ballI notI)
    fix rw assume rw: "rw \<in> set b" and e: "EMPTY \<in> set rw"
    from rw obtain i where i: "i < length b" "b ! i = rw" by (auto simp: in_set_conv_nth)
    from e obtain j where j: "j < length rw" "rw ! j = EMPTY" by (auto simp: in_set_conv_nth)
    from assms rw have "length rw = length b" by (simp add: square_def)
    with i j have "\<lparr>row = i, col = j\<rparr> \<in> set (cellsOf (length b))" "isEmpty b \<lparr>row = i, col = j\<rparr>"
      by (simp_all add: set_cellsOf isEmpty_iff)
    with l show False by blast
  qed
next
  assume r: "\<forall>rw\<in>set b. EMPTY \<notin> set rw"
  show "\<forall>m\<in>set (cellsOf (length b)). \<not> isEmpty b m"
  proof (intro ballI notI)
    fix m assume "isEmpty b m"
    then have "row m < length b" "col m < length (b ! row m)" "b ! row m ! col m = EMPTY"
      by (simp_all add: isEmpty_iff)
    then have "b ! row m \<in> set b" "EMPTY \<in> set (b ! row m)"
      by (auto simp: in_set_conv_nth)
    with r show False by blast
  qed
qed

lemma pickBest_Some:
  assumes "ms \<noteq> []" "\<forall>m\<in>set ms. \<exists>s. f m = Fin s"
  shows "\<exists>i. isFirstMax f ms i \<and> pickBest f ms None NegInf = Some (ms ! i)"
proof -
  from assms(1) obtain m where m: "m \<in> set ms" by (cases ms) auto
  with assms(2) obtain s where "f m = Fin s" by blast
  then have "NegInf < f m" by (simp add: NegInf_less_Fin)
  with m have "\<exists>m\<in>set ms. NegInf < f m" by blast
  from pickBest_first_max[OF this, of None] show ?thesis by blast
qed

lemma lookup_floor:
  assumes "g \<noteq> []" "0 \<le> rnd" "rnd < 1"
  shows "\<exists>k<length g. lookup g \<lfloor>rnd * of_nat (length g)\<rfloor> = Some (g ! k)"
proof -
  let ?n = "length g"
  have pos: "0 < (of_nat ?n :: rat)" using assms(1) by simp
  have lo: "0 \<le> rnd * of_nat ?n" using assms(2) by simp
  have hi: "rnd * of_nat ?n < of_nat ?n" using assms(3) pos by simp
  have f0: "0 \<le> \<lfloor>rnd * of_nat ?n\<rfloor>" using lo by simp
  have f1: "\<lfloor>rnd * of_nat ?n\<rfloor> < int ?n"
    using hi by (simp add: floor_less_iff)
  have "nat \<lfloor>rnd * of_nat ?n\<rfloor> < ?n" using f0 f1 by linarith
  moreover have "lookup g \<lfloor>rnd * of_nat ?n\<rfloor> = Some (g ! nat \<lfloor>rnd * of_nat ?n\<rfloor>)"
    using f0 f1 by (simp add: lookup_def)
  ultimately show ?thesis by blast
qed

lemma kept_nonempty:
  "ms \<noteq> [] \<Longrightarrow> map fst (take 8 (sortDesc (map (\<lambda>m. (m, g m)) ms))) \<noteq> []"
  by (cases ms) (auto simp: sortDesc_def take_Cons' dest: arg_cong[where f = length])

lemma easy_result:
  assumes "getValidMoves b \<noteq> []"
  shows "\<exists>i. isFirstMax (combinedScore b player) (getValidMoves b) i
     \<and> getBestMove b player ''easy'' rnd = Inr (Some (getValidMoves b ! i), b)"
proof -
  have emp: "\<forall>m\<in>set (getValidMoves b). isEmpty b m"
    using getValidMoves_empty by blast
  have "\<forall>m\<in>set (getValidMoves b). \<exists>s. combinedScore b player m = Fin s"
    by (simp add: combinedScore_def)
  from pickBest_Some[OF assms this]
  obtain i where "isFirstMax (combinedScore b player) (getValidMoves b) i"
    "pickBest (combinedScore b player) (getValidMoves b) None NegInf = Some (getValidMoves b ! i)"
    by blast
  then show ?thesis
    using assms unfolding getBestMove_def Let_def
    by (auto simp: easyLoop_pick[OF emp])
qed

lemma hard_result:
  assumes "getValidMoves b \<noteq> []"
  shows "\<exists>i. isFirstMax (searchFrom False b player)
       (map fst (take 8 (sortDesc (map (\<lambda>m. (m, staticScore b player m)) (getValidMoves b))))) i
     \<and> getBestMove b player ''hard'' rnd = Inr (Some
       (map fst (take 8 (sortDesc (map (\<lambda>m. (m, staticScore b player m)) (getValidMoves b)))) ! i), b)"
proof -
  let ?kept = "map fst (take 8 (sortDesc (map (\<lambda>m. (m, staticScore b player m)) (getValidMoves b))))"
  have emp: "\<forall>m\<in>set (getValidMoves b). isEmpty b m"
    using getValidMoves_empty by blast
  have kept: "\<forall>m\<in>set ?kept. isEmpty b m"
    using kept_subset[of 8 "staticScore b player" "getValidMoves b"] emp by blast
  have ne: "?kept \<noteq> []" using kept_nonempty[OF assms] by blast
  have "\<forall>m\<in>set ?kept. \<exists>s. searchFrom False b player m = Fin s"
    using searchFrom_finite by blast
  from pickBest_Some[OF ne this]
  obtain i where "isFirstMax (searchFrom False b player) ?kept i"
    "pickBest (searchFrom False b player) ?kept None NegInf = Some (?kept ! i)"
    by blast
  then show ?thesis
    using assms unfolding getBestMove_def Let_def
    by (auto simp: scoreMoves_eq[OF emp] hardLoop_pick[OF kept])
qed

lemma medium_result:
  assumes "getValidMoves b \<noteq> []" "0 \<le> rnd" "rnd < 1"
  shows "\<exists>m\<in>set (getValidMoves b). getBestMove b player ''medium'' rnd = Inr (Some m, b)"
proof -
  have emp: "\<forall>m\<in>set (getValidMoves b). isEmpty b m"
    using getValidMoves_empty by blast
  from mediumLoop_frame[OF emp, of player "[]" NegInf] assms(1)
  obtain g where g: "mediumLoop b player (getValidMoves b) [] NegInf = Inr (g, b)"
    "set g \<subseteq> set (getValidMoves b)" "g \<noteq> []" by auto
  from lookup_floor[OF g(3) assms(2,3)]
  obtain k where k: "k < length g" "lookup g \<lfloor>rnd * of_nat (length g)\<rfloor> = Some (g ! k)" by blast
  then have "g ! k \<in> set (getValidMoves b)" using g(2) by auto
  moreover have "getBestMove b player ''medium'' rnd = Inr (Some (g ! k), b)"
    using assms(1) g k unfolding getBestMove_def Let_def by simp
  ultimately show ?thesis by blast
qed

lemma isFirstMax_nth: "isFirstMax f xs i \<Longrightarrow> xs ! i \<in> set xs"
  by (simp add: isFirstMax_def)

text \<open>
  C2: on a square board, with \<open>Math.random()\<close> in \<open>[0, 1)\<close>, \<open>getBestMove\<close> returns
  \<open>null\<close> exactly when no cell of the board is \<open>EMPTY\<close> or the difficulty is none of
  \<open>'easy'\<close>, \<open>'medium'\<close>, \<open>'hard'\<close>; a move it returns is a cell of the board that is
  \<open>EMPTY\<close> at the call.
\<close>

theorem getBestMove_null_iff:
  assumes "square b" "0 \<le> rnd" "rnd < 1"
  shows "\<exists>mv. getBestMove b player difficulty rnd = Inr (mv, b)
     \<and> (mv = None \<longleftrightarrow>
          (\<forall>rw\<in>set b. EMPTY \<notin> set rw) \<or> difficulty \<notin> {''easy'', ''medium'', ''hard''})
     \<and> (\<forall>m. mv = Some m \<longrightarrow>
          row m < length b \<and> col m < length b \<and> b ! row m ! col m = EMPTY)"
proof (cases "getValidMoves b = []")
  case True
  then have "\<forall>rw\<in>set b. EMPTY \<notin> set rw"
    using getValidMoves_Nil_iff no_empty_cell_iff[OF assms(1)] by blast
  then show ?thesis
    using True by (simp add: getBestMove_def)
next
  case False
  then have full: "\<not> (\<forall>rw\<in>set b. EMPTY \<notin> set rw)"
    using getValidMoves_Nil_iff no_empty_cell_iff[OF assms(1)] by blast
  have cell: "row m < length b \<and> col m < length b \<and> b ! row m ! col m = EMPTY"
    if "m \<in> set (getValidMoves b)" for m
  proof -
    from that have e: "row m < length b" "col m < length (b ! row m)" "b ! row m ! col m = EMPTY"
      using getValidMoves_empty[of m b] by (simp_all add: isEmpty_iff)
    then have "b ! row m \<in> set b" by simp
    with assms(1) have "length (b ! row m) = length b" by (simp add: square_def)
    with e show ?thesis by simp
  qed
  consider (easy) "difficulty = ''easy''" | (medium) "difficulty = ''medium''"
    | (hard) "difficulty = ''hard''" | (other) "difficulty \<notin> {''easy'', ''medium'', ''hard''}"
    by blast
  then show ?thesis
  proof cases
    case easy
    from easy_result[OF False, of player rnd]
    obtain i where i: "isFirstMax (combinedScore b player) (getValidMoves b) i"
      "getBestMove b player ''easy'' rnd = Inr (Some (getValidMoves b ! i), b)" by blast
    from isFirstMax_nth[OF i(1)] cell have "row (getValidMoves b ! i) < length b
      \<and> col (getValidMoves b ! i) < length b
      \<and> b ! row (getValidMoves b ! i) ! col (getValidMoves b ! i) = EMPTY" by blast
    then show ?thesis using i(2) easy full by simp
  next
    case medium
    from medium_result[OF False assms(2,3), of player]
    obtain m where "m \<in> set (getValidMoves b)" "getBestMove b player ''medium'' rnd = Inr (Some m, b)"
      by blast
    then show ?thesis using cell[of m] medium full by simp
  next
    case hard
    let ?kept = "map fst (take 8 (sortDesc (map (\<lambda>m. (m, staticScore b player m)) (getValidMoves b))))"
    from hard_result[OF False, of player rnd]
    obtain i where i: "isFirstMax (searchFrom False b player) ?kept i"
      "getBestMove b player ''hard'' rnd = Inr (Some (?kept ! i), b)" by blast
    from isFirstMax_nth[OF i(1)] kept_subset[of 8 "staticScore b player" "getValidMoves b"]
    have "?kept ! i \<in> set (getValidMoves b)" by blast
    from cell[OF this] show ?thesis using i(2) hard full by simp
  next
    case other
    then show ?thesis
      using False by (simp add: getBestMove_def Let_def)
  qed
qed

theorem getBestMove_null_iff_witness:
  "square [[1, 0], [0, 2]] \<and> (0 :: rat) \<le> 1 / 2 \<and> (1 / 2 :: rat) < 1
   \<and> (\<exists>m. getBestMove [[1, 0], [0, 2]] BLACK ''medium'' (1 / 2) = Inr (Some m, [[1, 0], [0, 2]])
         \<and> row m < 2 \<and> col m < 2 \<and> [[1, 0], [0, 2]] ! row m ! col m = EMPTY)"
proof -
  have sq: "square [[1, 0], [0, 2]]" by (simp add: square_def)
  have r: "(0 :: rat) \<le> 1 / 2" "(1 / 2 :: rat) < 1" by simp_all
  have ne: "\<not> ((\<forall>rw\<in>set [[1, 0], [0, 2 :: nat]]. EMPTY \<notin> set rw)
      \<or> ''medium'' \<notin> {''easy'', ''medium'', ''hard''})"
    by (simp add: EMPTY_def)
  from getBestMove_null_iff[OF sq r, of BLACK "''medium''"] ne
  show ?thesis using sq by auto
qed

lemma sortDesc_sorted: "sorted_wrt (\<lambda>x y. snd x \<ge> snd y) (sortDesc xs)"
proof -
  have "sorted (map (\<lambda>ms. - snd ms) (sortDesc xs))"
    unfolding sortDesc_def by (rule sorted_sort_key)
  then show ?thesis
    by (simp add: sorted_map)
qed

lemma sortDesc_mset: "mset (sortDesc xs) = mset xs"
  by (simp add: sortDesc_def)

text \<open>
  C7: under \<open>'easy'\<close>, when there is a candidate, \<open>getBestMove\<close> returns the first
  candidate at which the combined score is maximal, where the combined score of a
  candidate is the mover's position score with the mover's stone on it minus 0.8 times
  the opponent's position score with the opponent's stone on it instead (a later
  candidate with an equal score does not replace an earlier one).
\<close>

theorem easy_first_max:
  assumes "getValidMoves b \<noteq> []"
  shows "(\<exists>i. isFirstMax (combinedScore b player) (getValidMoves b) i
           \<and> getBestMove b player ''easy'' rnd = Inr (Some (getValidMoves b ! i), b))
     \<and> (\<forall>m. evaluatePosition (setCell b m player) player
               = Inr (positionScore (setCell b m player) player)
           \<and> evaluatePosition (setCell b m (otherPlayer player)) (otherPlayer player)
               = Inr (positionScore (setCell b m (otherPlayer player)) (otherPlayer player)))"
  using easy_result[OF assms] evaluatePosition_total by blast

theorem easy_first_max_witness:
  "getValidMoves [[0, 1], [2, 0]] \<noteq> []
   \<and> (\<exists>i. isFirstMax (combinedScore [[0, 1], [2, 0]] BLACK) (getValidMoves [[0, 1], [2, 0]]) i
         \<and> getBestMove [[0, 1], [2, 0]] BLACK ''easy'' 0
             = Inr (Some (getValidMoves [[0, 1], [2, 0]] ! i), [[0, 1], [2, 0]]))"
proof -
  have ne: "getValidMoves [[0, 1], [2, 0]] \<noteq> []" by code_simp
  from easy_first_max[OF ne, of BLACK 0] ne show ?thesis by blast
qed

text \<open>
  C3, as amended: under \<open>'hard'\<close>, when there is a candidate, the candidates are scored
  statically from the mover's side (place, score, undo), sorted by that score in
  descending order and cut to the first 8; below each kept candidate, placed again, the
  depth-2 search runs with \<open>isMaximizing = false\<close>, that is with the opponent, the
  minimizing side, to move first; the result is the first kept candidate whose search
  score is maximal.
\<close>

theorem hard_first_max:
  assumes "getValidMoves b \<noteq> []"
  shows "mset (sortDesc (scoredCandidates b player)) = mset (scoredCandidates b player)
     \<and> sorted_wrt (\<lambda>x y. snd x \<ge> snd y) (sortDesc (scoredCandidates b player))
     \<and> (\<forall>m. evaluatePosition (setCell b m player) player = Inr (staticScore b player m)
            \<and> minimax (setCell b m player) 2 NegInf PosInf False player (otherPlayer player)
                = Inr (searchFrom False b player m, setCell b m player))
     \<and> (\<exists>i. isFirstMax (searchFrom False b player) (keptCandidates b player) i
            \<and> getBestMove b player ''hard'' rnd = Inr (Some (keptCandidates b player ! i), b))"
  unfolding keptCandidates_def scoredCandidates_def
  using hard_result[OF assms, of player rnd] sortDesc_sorted sortDesc_mset
    evaluatePosition_total searchFrom_eq
  by (simp add: staticScore_def)

theorem hard_first_max_witness:
  "getValidMoves [[0, 1], [2, 0]] \<noteq> []
   \<and> (\<exists>i. isFirstMax (searchFrom False [[0, 1], [2, 0]] BLACK) (keptCandidates [[0, 1], [2, 0]] BLACK) i
         \<and> getBestMove [[0, 1], [2, 0]] BLACK ''hard'' 0
             = Inr (Some (keptCandidates [[0, 1], [2, 0]] BLACK ! i), [[0, 1], [2, 0]]))"
proof -
  have ne: "getValidMoves [[0, 1], [2, 0]] \<noteq> []" by code_simp
  from hard_first_max[OF ne, of BLACK 0] ne show ?thesis by blast
qed

lemma closedFour_result:
  "getBestMove closedFour BLACK ''hard'' 0 = Inr (Some \<lparr>row = 2, col = 4\<rparr>, closedFour)"
  by code_simp

lemma closedFour_kept:
  "keptCandidates closedFour BLACK = [\<lparr>row = 2, col = 4\<rparr>, \<lparr>row = 0, col = 0\<rparr>]"
  by code_simp

lemma closedFour_search_first:
  "searchFrom True closedFour BLACK \<lparr>row = 2, col = 4\<rparr> = Fin 100000"
  by code_simp

lemma closedFour_search_second:
  "searchFrom True closedFour BLACK \<lparr>row = 0, col = 0\<rparr> = Fin 200000"
  by code_simp

text \<open>
  The claim C3 as it is stated, with the search started from the maximizing side
  (\<open>isMaximizing = true\<close>), fails on \<open>closedFour\<close> with Black to move: the kept candidates
  are \<open>(2, 4)\<close> and \<open>(0, 0)\<close>, the searches from the maximizing side score them 100000 and
  200000, so the first kept candidate with the highest such score is \<open>(0, 0)\<close>, and
  \<open>getBestMove\<close> returns \<open>(2, 4)\<close>.
\<close>

theorem hard_max_side_counterexample:
  "getBestMove closedFour BLACK ''hard'' 0 = Inr (Some \<lparr>row = 2, col = 4\<rparr>, closedFour)
   \<and> keptCandidates closedFour BLACK = [\<lparr>row = 2, col = 4\<rparr>, \<lparr>row = 0, col = 0\<rparr>]
   \<and> searchFrom True closedFour BLACK \<lparr>row = 2, col = 4\<rparr> = Fin 100000
   \<and> searchFrom True closedFour BLACK \<lparr>row = 0, col = 0\<rparr> = Fin 200000
   \<and> isFirstMax (searchFrom True closedFour BLACK) (keptCandidates closedFour BLACK) 1
   \<and> \<not> isFirstMax (searchFrom True closedFour BLACK) (keptCandidates closedFour BLACK) 0"
proof -
  have "isFirstMax (searchFrom True closedFour BLACK) (keptCandidates closedFour BLACK) 1"
    unfolding closedFour_kept isFirstMax_def
    by (simp add: closedFour_search_first closedFour_search_second lessThan_nat_numeral
        lessThan_Suc less_jsnum_def)
  moreover have "\<not> isFirstMax (searchFrom True closedFour BLACK) (keptCandidates closedFour BLACK) 0"
    unfolding closedFour_kept isFirstMax_def
    by (simp add: closedFour_search_first closedFour_search_second lessThan_nat_numeral
        lessThan_Suc)
  ultimately show ?thesis
    using closedFour_result closedFour_kept closedFour_search_first closedFour_search_second
    by simp
qed

text \<open>
  C9: on a board of side below 5 the guards of \<open>evaluatePosition\<close> let no window
  through: it makes no call of \<open>evaluateLine\<close>, reads no cell and returns 0, and
  \<open>getBestMove\<close> returns without throwing.
\<close>

theorem evaluatePosition_small_board:
  assumes "length b < 5"
  shows "lineCalls (length b) = [] \<and> evaluatePosition b player = Inr 0
     \<and> (\<exists>mv. getBestMove b player difficulty rnd = Inr (mv, b))"
  using assms getBestMove_frame[of b player difficulty rnd]
  by (simp add: evaluatePosition_def lineCalls_small)

theorem evaluatePosition_small_board_witness:
  "length [[0, 1, 0, 0], [0, 2, 0, 0], [0, 0, 0, 0], [1, 0, 0, 2 :: nat]] < 5
   \<and> evaluatePosition [[0, 1, 0, 0], [0, 2, 0, 0], [0, 0, 0, 0], [1, 0, 0, 2]] BLACK = Inr 0
   \<and> (\<exists>mv. getBestMove [[0, 1, 0, 0], [0, 2, 0, 0], [0, 0, 0, 0], [1, 0, 0, 2]] BLACK ''hard'' 0
         = Inr (mv, [[0, 1, 0, 0], [0, 2, 0, 0], [0, 0, 0, 0], [1, 0, 0, 2]]))"
proof -
  have len: "length [[0, 1, 0, 0], [0, 2, 0, 0], [0, 0, 0, 0], [1, 0, 0, 2 :: nat]] < 5" by simp
  from evaluatePosition_small_board[OF len, of BLACK "''hard''" 0] len
  show ?thesis by blast
qed

subsection \<open>The candidate generator\<close>

lemma nearStone_iff:
  "nearStone b i j offs \<longleftrightarrow>
     (\<exists>(dx, dy)\<in>set offs. int i + dx \<ge> 0 \<and> int i + dx < int (length b)
        \<and> int j + dy \<ge> 0 \<and> int j + dy < int (length b)
        \<and> cellAt b (int i + dx) (int j + dy) \<noteq> Some EMPTY)"
  by (induction b i j offs rule: nearStone.induct) (auto simp: Let_def)

lemma distinct_cellsOf: "distinct (cellsOf n)"
proof -
  have eq: "cellsOf n = map (\<lambda>(i, j). \<lparr>row = i, col = j\<rparr>) (List.product [0..<n] [0..<n])"
    by (simp add: cellsOf_def product_concat_map map_concat comp_def)
  have "inj (\<lambda>(i :: nat, j :: nat). \<lparr>row = i, col = j\<rparr>)"
    by (auto simp: inj_on_def)
  then have "inj_on (\<lambda>(i :: nat, j :: nat). \<lparr>row = i, col = j\<rparr>) (set (List.product [0..<n] [0..<n]))"
    by (rule inj_on_subset) simp
  then show ?thesis
    unfolding eq by (simp add: distinct_map distinct_product)
qed

lemma distinct_getValidMoves: "distinct (getValidMoves b)"
  by (simp add: getValidMoves_def Let_def distinct_cellsOf)

lemma all_empty_cellAt:
  assumes "square b" "\<forall>rw\<in>set b. \<forall>v\<in>set rw. v = EMPTY"
    and "0 \<le> r" "r < int (length b)" "0 \<le> c" "c < int (length b)"
  shows "cellAt b r c = Some EMPTY"
proof -
  have r: "nat r < length b" using assms(3,4) by simp
  then have rw: "b ! nat r \<in> set b" by simp
  with assms(1) have len: "length (b ! nat r) = length b" by (simp add: square_def)
  then have c: "nat c < length (b ! nat r)" using assms(5,6) by simp
  then have "b ! nat r ! nat c \<in> set (b ! nat r)" by simp
  with assms(2) rw have "b ! nat r ! nat c = EMPTY" by blast
  then show ?thesis
    using assms(3-6) len by (simp add: cellAt_def readCell_def lookup_def)
qed

lemma all_empty_getValidMoves:
  assumes "square b" "\<forall>rw\<in>set b. \<forall>v\<in>set rw. v = EMPTY"
  shows "getValidMoves b = cellsOf (length b)"
proof -
  have near: "\<not> nearStone b i j offs" for i j offs
    using all_empty_cellAt[OF assms] by (auto simp: nearStone_iff)
  have "isEmpty b m" if "m \<in> set (cellsOf (length b))" for m
  proof -
    from that have "row m < length b" "col m < length b" by (simp_all add: set_cellsOf)
    then show ?thesis
      using all_empty_cellAt[OF assms, of "int (row m)" "int (col m)"] by (simp add: isEmpty_def)
  qed
  then have "filter (isEmpty b) (cellsOf (length b)) = cellsOf (length b)"
    by (simp add: filter_id_conv)
  then show ?thesis
    by (simp add: getValidMoves_def Let_def near)
qed

text \<open>
  C8: the list of candidates has no duplicates, each candidate is a cell of the board
  that holds \<open>EMPTY\<close>, so none is occupied, and on a square board without any stone the
  list is every cell of the board, each once.
\<close>

theorem getValidMoves_candidates:
  "distinct (getValidMoves b)
   \<and> (\<forall>m\<in>set (getValidMoves b).
        row m < length b \<and> col m < length (b ! row m) \<and> b ! row m ! col m = EMPTY)
   \<and> (square b \<and> (\<forall>rw\<in>set b. \<forall>v\<in>set rw. v = EMPTY) \<longrightarrow>
        getValidMoves b = cellsOf (length b)
        \<and> set (getValidMoves b) = {m. row m < length b \<and> col m < length b})"
proof (intro conjI ballI impI)
  show "distinct (getValidMoves b)" by (rule distinct_getValidMoves)
next
  fix m assume "m \<in> set (getValidMoves b)"
  then have "isEmpty b m" by (rule getValidMoves_empty)
  then show "row m < length b" "col m < length (b ! row m)" "b ! row m ! col m = EMPTY"
    by (simp_all add: isEmpty_iff)
next
  assume a: "square b \<and> (\<forall>rw\<in>set b. \<forall>v\<in>set rw. v = EMPTY)"
  then show eq: "getValidMoves b = cellsOf (length b)"
    using all_empty_getValidMoves by blast
  show "set (getValidMoves b) = {m. row m < length b \<and> col m < length b}"
    unfolding eq by (rule set_cellsOf)
qed

theorem getValidMoves_candidates_witness:
  "square [[0, 0], [0, 0]]
   \<and> getValidMoves [[0, 0], [0, 0]]
       = [\<lparr>row = 0, col = 0\<rparr>, \<lparr>row = 0, col = 1\<rparr>, \<lparr>row = 1, col = 0\<rparr>, \<lparr>row = 1, col = 1\<rparr>]
   \<and> distinct (getValidMoves [[0, 0], [0, 0]])
   \<and> getValidMoves [[0, 1], [2, 0]] = [\<lparr>row = 0, col = 0\<rparr>, \<lparr>row = 1, col = 1\<rparr>]"
proof -
  have sq: "square [[0, 0], [0, 0]]" by (simp add: square_def)
  have em: "\<forall>rw\<in>set [[0, 0], [0, 0]]. \<forall>v\<in>set rw. v = EMPTY" by (simp add: EMPTY_def)
  have c: "cellsOf (length [[0, 0], [0, 0 :: nat]])
     = [\<lparr>row = 0, col = 0\<rparr>, \<lparr>row = 0, col = 1\<rparr>, \<lparr>row = 1, col = 0\<rparr>, \<lparr>row = 1, col = 1\<rparr>]"
    by code_simp
  have o: "getValidMoves [[0, 1], [2, 0]] = [\<lparr>row = 0, col = 0\<rparr>, \<lparr>row = 1, col = 1\<rparr>]"
    by code_simp
  from getValidMoves_candidates[of "[[0, 0], [0, 0]]"] sq em
  have "getValidMoves [[0, 0], [0, 0]] = cellsOf (length [[0, 0], [0, 0 :: nat]])"
    "distinct (getValidMoves [[0, 0], [0, 0]])" by blast+
  then show ?thesis using sq c o by simp
qed

subsection \<open>The win detector\<close>

lemma off_board_eventually:assumes "dr \<in> {- 1, 0, 1}" "dc \<in> {- 1, 0, 1}" "(dr, dc) \<noteq> (0, 0)"
  shows "\<exists>k. \<not> stoneAt b player (r + (int k + 1) * dr) (c + (int k + 1) * dc)"
proof -
  let ?k = "nat (\<bar>r\<bar> + \<bar>c\<bar> + int (length b))"
  have k: "int ?k = \<bar>r\<bar> + \<bar>c\<bar> + int (length b)" by simp
  have "\<not> stoneAt b player (r + (int ?k + 1) * dr) (c + (int ?k + 1) * dc)"
    using assms unfolding stoneAt_def k by auto
  then show ?thesis ..
qed

lemma run_exists:
  assumes "dr \<in> {- 1, 0, 1}" "dc \<in> {- 1, 0, 1}" "(dr, dc) \<noteq> (0, 0)"
  shows "\<exists>k. runLength b player r c dr dc k"
proof -
  let ?P = "\<lambda>k. \<not> stoneAt b player (r + (int k + 1) * dr) (c + (int k + 1) * dc)"
  from off_board_eventually[OF assms] have ex: "\<exists>k. ?P k" .
  let ?k = "LEAST k. ?P k"
  have last: "?P ?k" using ex by (rule LeastI_ex)
  have "stoneAt b player (r + int i * dr) (c + int i * dc)" if "i \<in> {1..?k}" for i
  proof -
    from that obtain j where j: "i = Suc j" "j < ?k" by (cases i) auto
    from not_less_Least[OF j(2)] show ?thesis by (simp add: j(1) algebra_simps)
  qed
  with last show ?thesis unfolding runLength_def by blast
qed

lemma countRun_run:
  assumes "runLength b player r c (sg * dy) (sg * dx) k"
  shows "countRun b r c player dx dy sg [1, 2, 3, 4] cnt = cnt + min 4 k"
proof -
  let ?S = "\<lambda>i :: int. r + sg * i * dy \<ge> 0 \<and> r + sg * i * dy < int (length b)
      \<and> c + sg * i * dx \<ge> 0 \<and> c + sg * i * dx < int (length b)
      \<and> cellAt b (r + sg * i * dy) (c + sg * i * dx) = Some player"
  have S: "?S (int i) \<longleftrightarrow> stoneAt b player (r + int i * (sg * dy)) (c + int i * (sg * dx))" for i
    by (simp add: stoneAt_def mult.assoc mult.left_commute)
  have yes: "?S (int i)" if "1 \<le> i" "i \<le> k" for i
    using assms that unfolding runLength_def S by simp
  have no: "\<not> ?S (int (Suc k))"
    using assms unfolding runLength_def S by (simp add: add.commute)
  consider "k = 0" | "k = 1" | "k = 2" | "k = 3" | "4 \<le> k" by linarith
  then show ?thesis
  proof cases
    case 1
    with no show ?thesis by (simp add: Let_def)
  next
    case 2
    with no yes[of 1] show ?thesis by (simp add: Let_def)
  next
    case 3
    with no yes[of 1] yes[of 2] show ?thesis by (simp add: Let_def)
  next
    case 4
    with no yes[of 1] yes[of 2] yes[of 3] show ?thesis by (simp add: Let_def)
  next
    case 5
    with yes[of 1] yes[of 2] yes[of 3] yes[of 4] show ?thesis by (simp add: Let_def)
  qed
qed


lemma run_unique:
  assumes "runLength b player r c dr dc k" "runLength b player r c dr dc k'"
  shows "k = k'"
proof (rule ccontr)
  assume "k \<noteq> k'"
  then consider "k < k'" | "k' < k" by linarith
  then show False
  proof cases
    case 1
    then have "Suc k \<in> {1..k'}" by simp
    with assms(2) have "stoneAt b player (r + int (Suc k) * dr) (c + int (Suc k) * dc)"
      unfolding runLength_def by blast
    with assms(1) show False unfolding runLength_def by (simp add: add.commute)
  next
    case 2
    then have "Suc k' \<in> {1..k}" by simp
    with assms(1) have "stoneAt b player (r + int (Suc k') * dr) (c + int (Suc k') * dc)"
      unfolding runLength_def by blast
    with assms(2) show False unfolding runLength_def by (simp add: add.commute)
  qed
qed

lemma direction_count:
  assumes "dx \<in> {- 1, 0, 1}" "dy \<in> {- 1, 0, 1}" "(dy, dx) \<noteq> (0, 0)"
  shows "5 \<le> countRun b r c player dx dy (- 1) [1, 2, 3, 4]
                (countRun b r c player dx dy 1 [1, 2, 3, 4] 1)
     \<longleftrightarrow> (\<exists>k1 k2. runLength b player r c dy dx k1 \<and> runLength b player r c (- dy) (- dx) k2
            \<and> 5 \<le> 1 + k1 + k2)"
proof -
  from run_exists[OF assms(2,1,3)]
  obtain k1 where k1: "runLength b player r c dy dx k1" by blast
  have "- dy \<in> {- 1, 0, 1}" "- dx \<in> {- 1, 0, 1}" "(- dy, - dx) \<noteq> (0, 0)"
    using assms by auto
  from run_exists[OF this]
  obtain k2 where k2: "runLength b player r c (- dy) (- dx) k2" by blast
  have c1: "countRun b r c player dx dy 1 [1, 2, 3, 4] cnt = cnt + min 4 k1" for cnt
    using countRun_run[of b player r c 1 dy dx k1 cnt] k1 by simp
  have c2: "countRun b r c player dx dy (- 1) [1, 2, 3, 4] cnt = cnt + min 4 k2" for cnt
    using countRun_run[of b player r c "- 1" dy dx k2 cnt] k2 by simp
  have "(\<exists>k1' k2'. runLength b player r c dy dx k1' \<and> runLength b player r c (- dy) (- dx) k2'
            \<and> 5 \<le> 1 + k1' + k2') \<longleftrightarrow> 5 \<le> 1 + k1 + k2"
    using k1 k2 run_unique by blast
  moreover have "5 \<le> 1 + min 4 k1 + min 4 k2 \<longleftrightarrow> 5 \<le> 1 + k1 + k2"
    by auto
  ultimately show ?thesis
    by (simp only: c1 c2)
qed

lemma five_in_line:
  assumes ax: "dr \<in> {- 1, 0, 1}" "dc \<in> {- 1, 0, 1}" "(dr, dc) \<noteq> (0, 0)"
    and j: "j \<le> 4"
    and five: "\<forall>i\<in>{0..4}. i \<noteq> j \<longrightarrow>
        stoneAt b player (r + (int i - int j) * dr) (c + (int i - int j) * dc)"
  shows "\<exists>k1 k2. runLength b player r c dr dc k1 \<and> runLength b player r c (- dr) (- dc) k2
     \<and> 5 \<le> 1 + k1 + k2"
proof -
  from run_exists[OF ax]
  obtain k1 where k1: "runLength b player r c dr dc k1" by blast
  have "- dr \<in> {- 1, 0, 1}" "- dc \<in> {- 1, 0, 1}" "(- dr, - dc) \<noteq> (0, 0)"
    using ax by auto
  from run_exists[OF this]
  obtain k2 where k2: "runLength b player r c (- dr) (- dc) k2" by blast
  have "4 - j \<le> k1"
  proof (rule ccontr)
    assume "\<not> 4 - j \<le> k1"
    then have lt: "j + k1 + 1 \<le> 4" by simp
    then have "j + k1 + 1 \<in> {0..4}" "j + k1 + 1 \<noteq> j" by simp_all
    with five have "stoneAt b player (r + (int (j + k1 + 1) - int j) * dr)
        (c + (int (j + k1 + 1) - int j) * dc)" by blast
    then have "stoneAt b player (r + (int k1 + 1) * dr) (c + (int k1 + 1) * dc)"
      by (simp add: algebra_simps)
    with k1 show False unfolding runLength_def by blast
  qed
  moreover have "j \<le> k2"
  proof (rule ccontr)
    assume "\<not> j \<le> k2"
    then have lt: "k2 + 1 \<le> j" by simp
    then have "j - (k2 + 1) \<in> {0..4}" "j - (k2 + 1) \<noteq> j" using j by simp_all
    with five have "stoneAt b player (r + (int (j - (k2 + 1)) - int j) * dr)
        (c + (int (j - (k2 + 1)) - int j) * dc)" by blast
    moreover have "(int (j - (k2 + 1)) - int j) * dr = (int k2 + 1) * (- dr)"
      "(int (j - (k2 + 1)) - int j) * dc = (int k2 + 1) * (- dc)"
      using lt by (simp_all add: algebra_simps of_nat_diff)
    ultimately have "stoneAt b player (r + (int k2 + 1) * (- dr)) (c + (int k2 + 1) * (- dc))"
      by (simp only:)
    with k2 show False unfolding runLength_def by blast
  qed
  ultimately have "5 \<le> 1 + k1 + k2" using j by simp
  with k1 k2 show ?thesis by blast
qed

lemma checkWin_runs:
  "checkWin b r c player \<longleftrightarrow>
     (\<exists>(dr, dc)\<in>set axes. \<exists>k1 k2. runLength b player r c dr dc k1
        \<and> runLength b player r c (- dr) (- dc) k2 \<and> 5 \<le> 1 + k1 + k2)"
proof -
  have d1: "5 \<le> countRun b r c player 1 0 (- 1) [1, 2, 3, 4] (countRun b r c player 1 0 1 [1, 2, 3, 4] 1)
     \<longleftrightarrow> (\<exists>k1 k2. runLength b player r c 0 1 k1 \<and> runLength b player r c 0 (- 1) k2
            \<and> 5 \<le> 1 + k1 + k2)"
    using direction_count[of 1 0 b r c player] by simp
  have d2: "5 \<le> countRun b r c player 0 1 (- 1) [1, 2, 3, 4] (countRun b r c player 0 1 1 [1, 2, 3, 4] 1)
     \<longleftrightarrow> (\<exists>k1 k2. runLength b player r c 1 0 k1 \<and> runLength b player r c (- 1) 0 k2
            \<and> 5 \<le> 1 + k1 + k2)"
    using direction_count[of 0 1 b r c player] by simp
  have d3: "5 \<le> countRun b r c player 1 1 (- 1) [1, 2, 3, 4] (countRun b r c player 1 1 1 [1, 2, 3, 4] 1)
     \<longleftrightarrow> (\<exists>k1 k2. runLength b player r c 1 1 k1 \<and> runLength b player r c (- 1) (- 1) k2
            \<and> 5 \<le> 1 + k1 + k2)"
    using direction_count[of 1 1 b r c player] by simp
  have d4: "5 \<le> countRun b r c player 1 (- 1) (- 1) [1, 2, 3, 4]
                (countRun b r c player 1 (- 1) 1 [1, 2, 3, 4] 1)
     \<longleftrightarrow> (\<exists>k1 k2. runLength b player r c (- 1) 1 k1 \<and> runLength b player r c 1 (- 1) k2
            \<and> 5 \<le> 1 + k1 + k2)"
    using direction_count[of 1 "- 1" b r c player] by simp
  have "checkWin b r c player \<longleftrightarrow>
      5 \<le> countRun b r c player 1 0 (- 1) [1, 2, 3, 4] (countRun b r c player 1 0 1 [1, 2, 3, 4] 1)
    \<or> 5 \<le> countRun b r c player 0 1 (- 1) [1, 2, 3, 4] (countRun b r c player 0 1 1 [1, 2, 3, 4] 1)
    \<or> 5 \<le> countRun b r c player 1 1 (- 1) [1, 2, 3, 4] (countRun b r c player 1 1 1 [1, 2, 3, 4] 1)
    \<or> 5 \<le> countRun b r c player 1 (- 1) (- 1) [1, 2, 3, 4]
                (countRun b r c player 1 (- 1) 1 [1, 2, 3, 4] 1)"
    unfolding checkWin_def directions_def
    by (simp add: Let_def del: countRun.simps)
  then show ?thesis
    unfolding d1 d2 d3 d4 axes_def by simp
qed

text \<open>
  C6: \<open>checkWin\<close> is true exactly when on one of the four axes the stones of the player
  that follow the played cell in the one sense and in the other, each run ending at the
  first cell that is not the player's or off the board, make at least 5 with the played
  stone counted once. Such runs exist on every axis; in particular \<open>checkWin\<close> is true
  when the played cell is one of five cells in line on an axis whose other four hold the
  player's stones.
\<close>

theorem checkWin_five_in_line:
  "(checkWin b r c player \<longleftrightarrow>
      (\<exists>(dr, dc)\<in>set axes. \<exists>k1 k2. runLength b player r c dr dc k1
         \<and> runLength b player r c (- dr) (- dc) k2 \<and> 5 \<le> 1 + k1 + k2))
   \<and> (\<forall>(dr, dc)\<in>set axes. \<exists>k1 k2. runLength b player r c dr dc k1
         \<and> runLength b player r c (- dr) (- dc) k2)
   \<and> (\<forall>(dr, dc)\<in>set axes. \<forall>j\<in>{0..4}.
        (\<forall>i\<in>{0..4}. i \<noteq> j \<longrightarrow>
            stoneAt b player (r + (int i - int j) * dr) (c + (int i - int j) * dc))
        \<longrightarrow> checkWin b r c player)"
proof (intro conjI)
  show "checkWin b r c player \<longleftrightarrow>
      (\<exists>(dr, dc)\<in>set axes. \<exists>k1 k2. runLength b player r c dr dc k1
         \<and> runLength b player r c (- dr) (- dc) k2 \<and> 5 \<le> 1 + k1 + k2)"
    by (rule checkWin_runs)
next
  have ax: "dr \<in> {- 1, 0, 1} \<and> dc \<in> {- 1, 0, 1} \<and> (dr, dc) \<noteq> (0, 0)
      \<and> - dr \<in> {- 1, 0, 1} \<and> - dc \<in> {- 1, 0, 1} \<and> (- dr, - dc) \<noteq> (0, 0)"
    if "(dr, dc) \<in> set axes" for dr dc
    using that by (auto simp: axes_def)
  show "\<forall>(dr, dc)\<in>set axes. \<exists>k1 k2. runLength b player r c dr dc k1
         \<and> runLength b player r c (- dr) (- dc) k2"
  proof (intro ballI, clarify)
    fix dr dc assume "(dr, dc) \<in> set axes"
    from ax[OF this] run_exists[of dr dc b player r c] run_exists[of "- dr" "- dc" b player r c]
    show "\<exists>k1 k2. runLength b player r c dr dc k1 \<and> runLength b player r c (- dr) (- dc) k2"
      by blast
  qed
  show "\<forall>(dr, dc)\<in>set axes. \<forall>j\<in>{0..4}.
        (\<forall>i\<in>{0..4}. i \<noteq> j \<longrightarrow>
            stoneAt b player (r + (int i - int j) * dr) (c + (int i - int j) * dc))
        \<longrightarrow> checkWin b r c player"
  proof (intro ballI, clarify)
    fix dr dc and j :: nat
    assume d: "(dr, dc) \<in> set axes" and j: "j \<in> {0..4}"
      and five: "\<forall>i\<in>{0..4}. i \<noteq> j \<longrightarrow>
            stoneAt b player (r + (int i - int j) * dr) (c + (int i - int j) * dc)"
    from j have j4: "j \<le> 4" by simp
    from ax[OF d] have a: "dr \<in> {- 1, 0, 1}" "dc \<in> {- 1, 0, 1}" "(dr, dc) \<noteq> (0, 0)"
      by blast+
    from five_in_line[OF a j4 five] d
    show "checkWin b r c player"
      unfolding checkWin_runs by blast
  qed
qed

theorem checkWin_five_in_line_witness:
  "checkWin [[0, 0, 0, 0, 0, 0],
             [2, 1, 1, 1, 1, 1],
             [0, 0, 0, 0, 0, 0],
             [0, 0, 0, 0, 0, 0],
             [0, 0, 0, 0, 0, 0],
             [0, 0, 0, 0, 0, 0]] 1 3 BLACK
   \<and> \<not> checkWin [[0, 0, 0, 0, 0, 0],
                [2, 1, 1, 1, 1, 2],
                [0, 0, 0, 0, 0, 0],
                [0, 0, 0, 0, 0, 0],
                [0, 0, 0, 0, 0, 0],
                [0, 0, 0, 0, 0, 0]] 1 3 BLACK
   \<and> \<not> (\<exists>(dr, dc)\<in>set axes. \<exists>k1 k2.
          runLength [[0, 0, 0, 0, 0, 0],
                     [2, 1, 1, 1, 1, 2],
                     [0, 0, 0, 0, 0, 0],
                     [0, 0, 0, 0, 0, 0],
                     [0, 0, 0, 0, 0, 0],
                     [0, 0, 0, 0, 0, 0]] BLACK 1 3 dr dc k1
          \<and> runLength [[0, 0, 0, 0, 0, 0],
                       [2, 1, 1, 1, 1, 2],
                       [0, 0, 0, 0, 0, 0],
                       [0, 0, 0, 0, 0, 0],
                       [0, 0, 0, 0, 0, 0],
                       [0, 0, 0, 0, 0, 0]] BLACK 1 3 (- dr) (- dc) k2
          \<and> 5 \<le> 1 + k1 + k2)"
proof -
  have w: "checkWin [[0, 0, 0, 0, 0, 0],
             [2, 1, 1, 1, 1, 1],
             [0, 0, 0, 0, 0, 0],
             [0, 0, 0, 0, 0, 0],
             [0, 0, 0, 0, 0, 0],
             [0, 0, 0, 0, 0, 0]] 1 3 BLACK"
    by code_simp
  have n: "\<not> checkWin [[0, 0, 0, 0, 0, 0],
                [2, 1, 1, 1, 1, 2],
                [0, 0, 0, 0, 0, 0],
                [0, 0, 0, 0, 0, 0],
                [0, 0, 0, 0, 0, 0],
                [0, 0, 0, 0, 0, 0]] 1 3 BLACK"
    by code_simp
  from n checkWin_five_in_line[of "[[0, 0, 0, 0, 0, 0],
                [2, 1, 1, 1, 1, 2],
                [0, 0, 0, 0, 0, 0],
                [0, 0, 0, 0, 0, 0],
                [0, 0, 0, 0, 0, 0],
                [0, 0, 0, 0, 0, 0]]" 1 3 BLACK]
  show ?thesis using w n by blast
qed

subsection \<open>Winning cells\<close>

lemma length_setCell: "length (setCell b m v) = length b"
  by (simp add: setCell_def)

lemma cellAt_setCell:
  assumes "isEmpty b m"
  shows "cellAt (setCell b m v) r c
     = (if r = int (row m) \<and> c = int (col m) then Some v else cellAt b r c)"
proof -
  from assms have rm: "row m < length b" and cm: "col m < length (b ! row m)"
    by (simp_all add: isEmpty_iff)
  show ?thesis
  proof (cases "0 \<le> r \<and> r < int (length b)")
    case False
    then show ?thesis
      using rm by (auto simp: cellAt_def readCell_def lookup_def setCell_def)
  next
    case True
    then have nr: "nat r < length b" by (simp add: nat_less_iff)
    show ?thesis
    proof (cases "nat r = row m")
      case False
      then have "r \<noteq> int (row m)" by auto
      then show ?thesis
        using True False by (simp add: cellAt_def readCell_def lookup_def setCell_def)
    next
      case r: True
      then have req: "r = int (row m)" using True by linarith
      have row: "setCell b m v ! nat r = (b ! row m)[col m := v]"
        "setCell b m v ! row m = (b ! row m)[col m := v]"
        using rm r by (simp_all add: setCell_def)
      show ?thesis
      proof (cases "0 \<le> c \<and> c < int (length (b ! row m))")
        case False
        then show ?thesis
          using True cm r req by (auto simp: cellAt_def readCell_def lookup_def row length_setCell)
      next
        case c: True
        then have "c = int (col m) \<longleftrightarrow> nat c = col m" by linarith
        then show ?thesis
          using True c r req by (auto simp: cellAt_def readCell_def lookup_def row length_setCell
              nth_list_update)
      qed
    qed
  qed
qed

lemma isEmpty_setCell_other:
  assumes "isEmpty b m" "w \<noteq> m"
  shows "isEmpty (setCell b m v) w = isEmpty b w"
proof -
  have neq: "\<not> (int (row w) = int (row m) \<and> int (col w) = int (col m))"
    using assms(2) by (cases w; cases m) auto
  show ?thesis
    unfolding isEmpty_def cellAt_setCell[OF assms(1)] by (simp only: if_not_P[OF neq])
qed

lemma stoneAt_setCell:
  assumes "isEmpty b m" "p \<noteq> EMPTY" "stoneAt b p r c"
  shows "stoneAt (setCell b m v) p r c"
proof -
  from assms(1) have "cellAt b (int (row m)) (int (col m)) = Some EMPTY" by (simp add: isEmpty_def)
  with assms(2,3) have neq: "\<not> (r = int (row m) \<and> c = int (col m))"
    by (auto simp: stoneAt_def)
  have "cellAt (setCell b m v) r c = cellAt b r c"
    unfolding cellAt_setCell[OF assms(1)] by (simp only: if_not_P[OF neq])
  then show ?thesis
    using assms(3) by (simp add: stoneAt_def length_setCell)
qed

lemma threat_persists:
  assumes "threat b p w" "isEmpty b m" "w \<noteq> m" "p \<noteq> EMPTY"
  shows "threat (setCell b m v) p w"
proof -
  from assms(1) obtain dr dc j where d: "(dr, dc) \<in> set axes" "j \<in> {0..4}"
    and st: "\<forall>i\<in>{0..4}. i \<noteq> j \<longrightarrow>
      stoneAt b p (int (row w) + (int i - int j) * dr) (int (col w) + (int i - int j) * dc)"
    unfolding threat_def by blast
  have "\<forall>i\<in>{0..4}. i \<noteq> j \<longrightarrow> stoneAt (setCell b m v) p
      (int (row w) + (int i - int j) * dr) (int (col w) + (int i - int j) * dc)"
    using st stoneAt_setCell[OF assms(2,4)] by blast
  moreover have "isEmpty (setCell b m v) w"
    using assms(1) isEmpty_setCell_other[OF assms(2,3)] by (simp add: threat_def)
  moreover have "col w < length (setCell b m v)"
    using assms(1) by (simp add: threat_def length_setCell)
  ultimately show ?thesis
    unfolding threat_def using d by blast
qed

lemma threat_checkWin:
  assumes "threat b p w" "p \<noteq> EMPTY"
  shows "checkWin (setCell b w p) (int (row w)) (int (col w)) p"
proof -
  from assms(1) have e: "isEmpty b w" by (simp add: threat_def)
  from assms(1) obtain dr dc j where d: "(dr, dc) \<in> set axes" "j \<in> {0..4}"
    and st: "\<forall>i\<in>{0..4}. i \<noteq> j \<longrightarrow>
      stoneAt b p (int (row w) + (int i - int j) * dr) (int (col w) + (int i - int j) * dc)"
    unfolding threat_def by blast
  have st': "\<forall>i\<in>{0..4}. i \<noteq> j \<longrightarrow> stoneAt (setCell b w p) p
      (int (row w) + (int i - int j) * dr) (int (col w) + (int i - int j) * dc)"
    using st stoneAt_setCell[OF e assms(2)] by blast
  have a: "dr \<in> {- 1, 0, 1}" "dc \<in> {- 1, 0, 1}" "(dr, dc) \<noteq> (0, 0)"
    using d(1) by (auto simp: axes_def)
  from d(2) have j4: "j \<le> 4" by simp
  from five_in_line[OF a j4 st'] d(1) show ?thesis
    unfolding checkWin_runs by blast
qed

lemma nearStone_offset:
  assumes "(dx, dy) \<in> set offsets" "stoneAt b p (int i + dx) (int j + dy)" "p \<noteq> EMPTY"
  shows "nearStone b i j offsets"
  unfolding nearStone_iff using assms by (auto simp: stoneAt_def)

lemma threat_valid:
  assumes "threat b p w" "p \<noteq> EMPTY"
  shows "w \<in> set (getValidMoves b)"
proof -
  from assms(1) have e: "isEmpty b w" and cw: "col w < length b" by (simp_all add: threat_def)
  from assms(1) obtain dr dc j where d: "(dr, dc) \<in> set axes" "j \<in> {0..4}"
    and st: "\<forall>i\<in>{0..4}. i \<noteq> j \<longrightarrow>
      stoneAt b p (int (row w) + (int i - int j) * dr) (int (col w) + (int i - int j) * dc)"
    unfolding threat_def by blast
  have "\<exists>dx dy. (dx, dy) \<in> set offsets \<and> stoneAt b p (int (row w) + dx) (int (col w) + dy)"
  proof (cases "j = 0")
    case True
    then have "(1 :: nat) \<in> {0..4}" "(1 :: nat) \<noteq> j" by simp_all
    with st have "stoneAt b p (int (row w) + (int 1 - int j) * dr) (int (col w) + (int 1 - int j) * dc)"
      by blast
    then have "stoneAt b p (int (row w) + dr) (int (col w) + dc)" using True by simp
    moreover have "(dr, dc) \<in> set offsets" using d(1) by (auto simp: axes_def offsets_def)
    ultimately show ?thesis by blast
  next
    case False
    then have "j - 1 \<in> {0..4}" "j - 1 \<noteq> j" using d(2) by auto
    with st have "stoneAt b p (int (row w) + (int (j - 1) - int j) * dr)
        (int (col w) + (int (j - 1) - int j) * dc)" by blast
    moreover have "int (j - 1) - int j = - 1" using False by simp
    ultimately have "stoneAt b p (int (row w) + (- dr)) (int (col w) + (- dc))" by simp
    moreover have "(- dr, - dc) \<in> set offsets" using d(1) by (auto simp: axes_def offsets_def)
    ultimately show ?thesis by blast
  qed
  then obtain dx dy where "(dx, dy) \<in> set offsets" "stoneAt b p (int (row w) + dx) (int (col w) + dy)"
    by blast
  from nearStone_offset[OF this assms(2)] have near: "nearStone b (row w) (col w) offsets" .
  have "w \<in> set (cellsOf (length b))"
    using e cw by (simp add: set_cellsOf isEmpty_iff)
  then show ?thesis
    using e near by (auto simp: getValidMoves_def Let_def)
qed

subsection \<open>The search below a position with two winning cells\<close>

lemma cellAt_in_row:
  assumes "cellAt b r c = Some v"
  shows "\<exists>rw\<in>set b. v \<in> set rw"
proof -
  from assms have r: "0 \<le> r" "r < int (length b)"
    by (auto simp: cellAt_def readCell_def lookup_def split: if_splits)
  with assms have c: "0 \<le> c" "c < int (length (b ! nat r))" and v: "b ! nat r ! nat c = v"
    by (auto simp: cellAt_def readCell_def lookup_def split: if_splits)
  have "b ! nat r \<in> set b" using r by (simp add: nat_less_iff)
  moreover have "v \<in> set (b ! nat r)" using c v by (auto simp: nat_less_iff)
  ultimately show ?thesis by blast
qed

lemma no_stone_no_win:
  assumes none: "\<forall>rw\<in>set b. q \<notin> set rw" and e: "isEmpty b m"
  shows "\<not> checkWin (setCell b m q) (int (row m)) (int (col m)) q"
proof
  assume "checkWin (setCell b m q) (int (row m)) (int (col m)) q"
  then obtain dr dc k1 k2 where d: "(dr, dc) \<in> set axes"
    and k1: "runLength (setCell b m q) q (int (row m)) (int (col m)) dr dc k1"
    and k2: "runLength (setCell b m q) q (int (row m)) (int (col m)) (- dr) (- dc) k2"
    and five: "5 \<le> 1 + k1 + k2"
    unfolding checkWin_runs by blast
  have nz: "(dr, dc) \<noteq> (0, 0)" using d by (auto simp: axes_def)
  have no: "\<not> stoneAt (setCell b m q) q (int (row m) + dr') (int (col m) + dc')"
    if "(dr', dc') \<noteq> (0, 0)" for dr' dc'
  proof
    assume s: "stoneAt (setCell b m q) q (int (row m) + dr') (int (col m) + dc')"
    have neq: "\<not> (int (row m) + dr' = int (row m) \<and> int (col m) + dc' = int (col m))"
      using that by auto
    have "cellAt (setCell b m q) (int (row m) + dr') (int (col m) + dc')
        = cellAt b (int (row m) + dr') (int (col m) + dc')"
      unfolding cellAt_setCell[OF e] by (simp only: if_not_P[OF neq])
    with s have "cellAt b (int (row m) + dr') (int (col m) + dc') = Some q"
      by (simp add: stoneAt_def)
    from cellAt_in_row[OF this] none show False by blast
  qed
  from five consider "1 \<le> k1" | "1 \<le> k2" by linarith
  then show False
  proof cases
    case 1
    then have "1 \<in> {1..k1}" by simp
    with k1 have "stoneAt (setCell b m q) q (int (row m) + int 1 * dr) (int (col m) + int 1 * dc)"
      unfolding runLength_def by blast
    with no[of dr dc] nz show False by simp
  next
    case 2
    then have "1 \<in> {1..k2}" by simp
    with k2 have "stoneAt (setCell b m q) q (int (row m) + int 1 * (- dr)) (int (col m) + int 1 * (- dc))"
      unfolding runLength_def by blast
    with no[of "- dr" "- dc"] nz show False by simp
  qed
qed

lemma maxLoop_win:
  assumes "\<forall>m\<in>set ms. isEmpty b m"
    and "\<exists>w\<in>set ms. checkWin (setCell b w p) (int (row w)) (int (col w)) p"
    and "alpha \<le> maxScore"
  shows "\<exists>s. maxLoop b d alpha beta p q ms maxScore = Inr (s, b)
     \<and> (s = Fin (FIVE * of_nat d) \<or> beta \<le> s)"
  using assms
proof (induction ms arbitrary: alpha maxScore)
  case Nil
  then show ?case by simp
next
  case (Cons m ms)
  then have e: "isEmpty b m" and rest: "\<forall>m\<in>set ms. isEmpty b m" by simp_all
  note undo = setCell_undo[OF e]
  show ?case
  proof (cases "checkWin (setCell b m p) (int (row m)) (int (col m)) p")
    case True
    then show ?thesis by (simp add: undo)
  next
    case False
    with Cons.prems(2) have win: "\<exists>w\<in>set ms. checkWin (setCell b w p) (int (row w)) (int (col w)) p"
      by auto
    from search_frame(1)[of "setCell b m p" "d - 1" alpha beta False p q]
    obtain s where s: "minimax (setCell b m p) (d - 1) alpha beta False p q
        = Inr (Fin s, setCell b m p)" by blast
    have le: "max alpha (Fin s) \<le> max maxScore (Fin s)"
      using Cons.prems(3) by (simp add: max.coboundedI1 max.coboundedI2)
    show ?thesis
    proof (cases "beta \<le> max alpha (Fin s)")
      case True
      then have "beta \<le> max maxScore (Fin s)" using le by (rule order_trans)
      then show ?thesis
        using False s undo True by (simp add: Let_def)
    next
      case nb: False
      from Cons.IH[OF rest win le]
      show ?thesis
        using False s undo nb by (simp add: Let_def)
    qed
  qed
qed

lemma minimax_max_win:
  assumes "d \<noteq> 0"
    and "\<exists>w\<in>set (getValidMoves b). checkWin (setCell b w p) (int (row w)) (int (col w)) p"
  shows "\<exists>s. minimax b d NegInf beta True p q = Inr (s, b)
     \<and> (s = Fin (FIVE * of_nat d) \<or> beta \<le> s)"
proof -
  have emp: "\<forall>m\<in>set (getValidMoves b). isEmpty b m"
    using getValidMoves_empty by blast
  from assms(2) have ne: "getValidMoves b \<noteq> []" by auto
  from maxLoop_win[OF emp assms(2), of NegInf NegInf d beta q]
  show ?thesis
    using assms(1) ne by (simp add: minimax.simps[of b d] Let_def)
qed

lemma minLoop_lower:
  assumes "\<forall>m\<in>set ms. isEmpty b m"
    and "\<forall>m\<in>set ms. \<not> checkWin (setCell b m q) (int (row m)) (int (col m)) q
        \<and> (\<exists>w\<in>set (getValidMoves (setCell b m q)).
              checkWin (setCell (setCell b m q) w p) (int (row w)) (int (col w)) p)"
    and "Fin (FIVE * of_nat (d - 1)) \<le> beta" "Fin (FIVE * of_nat (d - 1)) \<le> minScore"
    and "d - 1 \<noteq> 0"
  shows "\<exists>s. minLoop b d NegInf beta p q ms minScore = Inr (s, b)
     \<and> Fin (FIVE * of_nat (d - 1)) \<le> s"
  using assms(1-4)
proof (induction ms arbitrary: beta minScore)
  case Nil
  then show ?case by simp
next
  case (Cons m ms)
  then have e: "isEmpty b m" and rest: "\<forall>m\<in>set ms. isEmpty b m" by simp_all
  note undo = setCell_undo[OF e]
  from Cons.prems(2) have nowin: "\<not> checkWin (setCell b m q) (int (row m)) (int (col m)) q"
    and reply: "\<exists>w\<in>set (getValidMoves (setCell b m q)).
              checkWin (setCell (setCell b m q) w p) (int (row w)) (int (col w)) p"
    and rest2: "\<forall>m\<in>set ms. \<not> checkWin (setCell b m q) (int (row m)) (int (col m)) q
        \<and> (\<exists>w\<in>set (getValidMoves (setCell b m q)).
              checkWin (setCell (setCell b m q) w p) (int (row w)) (int (col w)) p)"
    by simp_all
  from minimax_max_win[OF assms(5) reply, of beta q]
  obtain s where s: "minimax (setCell b m q) (d - 1) NegInf beta True p q = Inr (s, setCell b m q)"
    and sv: "s = Fin (FIVE * of_nat (d - 1)) \<or> beta \<le> s" by blast
  have ge: "Fin (FIVE * of_nat (d - 1)) \<le> s"
    using sv Cons.prems(3) by auto
  have ge1: "Fin (FIVE * of_nat (d - 1)) \<le> min minScore s"
    using ge Cons.prems(4) by simp
  have ge2: "Fin (FIVE * of_nat (d - 1)) \<le> min beta s"
    using ge Cons.prems(3) by simp
  show ?case
  proof (cases "min beta s \<le> NegInf")
    case True
    then show ?thesis
      using nowin s undo ge1 by (simp add: Let_def)
  next
    case False
    from Cons.IH[OF rest rest2 ge2 ge1]
    show ?thesis
      using nowin s undo False by (simp add: Let_def)
  qed
qed

lemma minLoop_le:
  assumes "\<forall>m\<in>set ms. isEmpty b m"
  shows "\<exists>s. minLoop b d alpha beta p q ms minScore = Inr (s, b)
     \<and> (s \<le> minScore \<or> s = Fin (- FIVE * of_nat d))"
  using assms
proof (induction ms arbitrary: beta minScore)
  case Nil
  then show ?case by simp
next
  case (Cons m ms)
  then have e: "isEmpty b m" and rest: "\<forall>m\<in>set ms. isEmpty b m" by simp_all
  note undo = setCell_undo[OF e]
  show ?case
  proof (cases "checkWin (setCell b m q) (int (row m)) (int (col m)) q")
    case True
    then show ?thesis by (simp add: undo)
  next
    case False
    from search_frame(1)[of "setCell b m q" "d - 1" alpha beta True p q]
    obtain s where s: "minimax (setCell b m q) (d - 1) alpha beta True p q
        = Inr (Fin s, setCell b m q)" by blast
    show ?thesis
    proof (cases "min beta (Fin s) \<le> alpha")
      case True
      then show ?thesis
        using False s undo by (simp add: Let_def)
    next
      case nb: False
      from Cons.IH[OF rest, of "min beta (Fin s)" "min minScore (Fin s)"]
      obtain s' where "minLoop b d alpha (min beta (Fin s)) p q ms (min minScore (Fin s)) = Inr (s', b)"
        "s' \<le> min minScore (Fin s) \<or> s' = Fin (- FIVE * of_nat d)" by blast
      then show ?thesis
        using False s undo nb by (auto simp: Let_def)
    qed
  qed
qed

lemma minLoop_first:
  assumes "\<forall>m\<in>set (m # ms). isEmpty b m"
    and "\<not> checkWin (setCell b m q) (int (row m)) (int (col m)) q"
    and "\<exists>w\<in>set (getValidMoves (setCell b m q)).
              checkWin (setCell (setCell b m q) w p) (int (row w)) (int (col w)) p"
    and "d - 1 \<noteq> 0"
  shows "\<exists>s. minLoop b d NegInf PosInf p q (m # ms) PosInf = Inr (s, b)
     \<and> s \<le> Fin (FIVE * of_nat (d - 1))"
proof -
  from assms(1) have e: "isEmpty b m" and rest: "\<forall>m\<in>set ms. isEmpty b m" by simp_all
  note undo = setCell_undo[OF e]
  from minimax_max_win[OF assms(4,3), of PosInf q] search_frame(1)[of "setCell b m q" "d - 1" NegInf PosInf True p q]
  have s: "minimax (setCell b m q) (d - 1) NegInf PosInf True p q
      = Inr (Fin (FIVE * of_nat (d - 1)), setCell b m q)"
    by auto
  let ?v = "Fin (FIVE * of_nat (d - 1))"
  have m1: "min PosInf ?v = ?v" by (simp add: min_def)
  have nle: "\<not> ?v \<le> NegInf" by simp
  from minLoop_le[OF rest, of d NegInf ?v p q ?v]
  obtain s' where s': "minLoop b d NegInf ?v p q ms ?v = Inr (s', b)"
    "s' \<le> ?v \<or> s' = Fin (- FIVE * of_nat d)" by blast
  have "Fin (- FIVE * of_nat d) \<le> ?v" by (simp add: FIVE_def)
  with s'(2) have "s' \<le> ?v" by auto
  then show ?thesis
    using assms(2) s undo s'(1) by (simp add: Let_def m1 nle)
qed

lemma forced_win_value:
  assumes p: "p \<noteq> EMPTY" and none: "\<forall>rw\<in>set b. q \<notin> set rw"
    and t1: "threat b p w1" and t2: "threat b p w2" and ne: "w1 \<noteq> w2"
  shows "minimax b 2 NegInf PosInf False p q = Inr (Fin FIVE, b)"
proof -
  have emp: "\<forall>m\<in>set (getValidMoves b). isEmpty b m"
    using getValidMoves_empty by blast
  have vm: "getValidMoves b \<noteq> []" using threat_valid[OF t1 p] by auto
  have each: "\<not> checkWin (setCell b m q) (int (row m)) (int (col m)) q
        \<and> (\<exists>w\<in>set (getValidMoves (setCell b m q)).
              checkWin (setCell (setCell b m q) w p) (int (row w)) (int (col w)) p)"
    if "isEmpty b m" for m
  proof
    show "\<not> checkWin (setCell b m q) (int (row m)) (int (col m)) q"
      using no_stone_no_win[OF none that] .
    from ne obtain w where w: "w = w1 \<or> w = w2" "w \<noteq> m" by blast
    with t1 t2 have "threat b p w" by auto
    from threat_persists[OF this that w(2) p] have t: "threat (setCell b m q) p w" .
    from threat_valid[OF t p] threat_checkWin[OF t p]
    show "\<exists>w\<in>set (getValidMoves (setCell b m q)).
              checkWin (setCell (setCell b m q) w p) (int (row w)) (int (col w)) p"
      by blast
  qed
  then have all: "\<forall>m\<in>set (getValidMoves b). \<not> checkWin (setCell b m q) (int (row m)) (int (col m)) q
        \<and> (\<exists>w\<in>set (getValidMoves (setCell b m q)).
              checkWin (setCell (setCell b m q) w p) (int (row w)) (int (col w)) p)"
    using emp by blast
  have d: "(2 :: nat) - 1 \<noteq> 0" by simp
  have five: "FIVE * of_nat ((2 :: nat) - 1) = FIVE" by simp
  from minLoop_lower[OF emp all _ _ d, of PosInf PosInf]
  obtain s where s: "minLoop b 2 NegInf PosInf p q (getValidMoves b) PosInf = Inr (s, b)"
    "Fin FIVE \<le> s" unfolding five by auto
  from vm obtain m ms where ms: "getValidMoves b = m # ms" by (cases "getValidMoves b") auto
  with emp all have "\<forall>m\<in>set (m # ms). isEmpty b m"
    "\<not> checkWin (setCell b m q) (int (row m)) (int (col m)) q"
    "\<exists>w\<in>set (getValidMoves (setCell b m q)).
              checkWin (setCell (setCell b m q) w p) (int (row w)) (int (col w)) p"
    by simp_all
  from minLoop_first[OF this d] s(1)
  have "s \<le> Fin FIVE" unfolding five ms by simp
  with s(2) have "s = Fin FIVE" by simp
  then show ?thesis
    using s(1) vm by (simp add: minimax.simps[of b 2] Let_def)
qed

subsection \<open>The position score after one placement\<close>

lemma readCell_setCell_other:
  assumes "isEmpty b m" "\<not> (r = int (row m) \<and> c = int (col m))"
  shows "readCell (setCell b m v) r c = readCell b r c"
proof (cases "0 \<le> r \<and> r < int (length b)")
  case False
  then show ?thesis
    by (auto simp: readCell_def lookup_def length_setCell)
next
  case True
  from assms(1) have rm: "row m < length b" by (simp add: isEmpty_iff)
  show ?thesis
  proof (cases "nat r = row m")
    case False
    then show ?thesis
      using True by (simp add: readCell_def lookup_def setCell_def)
  next
    case r: True
    then have "r = int (row m)" using True by linarith
    with assms(2) have c: "c \<noteq> int (col m)" by simp
    have row: "setCell b m v ! nat r = (b ! nat r)[col m := v]"
      using rm r by (simp add: setCell_def)
    have "lookup ((b ! nat r)[col m := v]) c = lookup (b ! nat r) c"
      using c by (auto simp: lookup_def nth_list_update)
    then show ?thesis
      using True by (simp add: readCell_def lookup_def length_setCell row)
  qed
qed

lemma countLine_untouched:
  assumes "isEmpty b m"
    and "\<forall>i\<in>set is. \<not> (r + i * dx = int (row m) \<and> c + i * dy = int (col m))"
  shows "countLine (setCell b m v) r c dx dy p q is (pc, oc, ec)
     = countLine b r c dx dy p q is (pc, oc, ec)"
  using assms(2)
proof (induction "is" arbitrary: pc oc ec)
  case Nil
  then show ?case by simp
next
  case (Cons i "is")
  then have "\<not> (r + i * dx = int (row m) \<and> c + i * dy = int (col m))" by simp
  from readCell_setCell_other[OF assms(1) this]
  have rd: "readCell (setCell b m v) (r + i * dx) (c + i * dy) = readCell b (r + i * dx) (c + i * dy)" .
  from Cons.prems have "\<forall>i\<in>set is. \<not> (r + i * dx = int (row m) \<and> c + i * dy = int (col m))"
    by simp
  note ih = Cons.IH[OF this]
  show ?case
    by (simp add: rd ih split: sum.splits)
qed

lemma lineVal_untouched:
  assumes "isEmpty b m" "\<not> touches m call"
  shows "lineVal (setCell b m v) p q call = lineVal b p q call"
proof -
  obtain r c dx dy where call: "call = (r, c, dx, dy)" using prod_cases4 by blast
  from assms(2) have "\<forall>i\<in>set [0, 1, 2, 3, 4]. \<not> (r + i * dx = int (row m) \<and> c + i * dy = int (col m))"
    unfolding call touches_def by (simp add: list_ex_iff)
  from countLine_untouched[OF assms(1) this]
  show ?thesis
    by (simp add: call lineVal_def evaluateLine_def lineCounts_def)
qed

lemma sumLines_sum:
  assumes "\<forall>(r, c, dx, dy)\<in>set calls. 0 \<le> r \<and> 0 \<le> dx \<and> r + 4 * dx < int (length b)"
  shows "sumLines b p q score calls = Inr (score + sum_list (map (lineVal b p q) calls))"
  using assms
proof (induction calls arbitrary: score)
  case Nil
  then show ?case by simp
next
  case (Cons call calls)
  obtain r c dx dy where call: "call = (r, c, dx, dy)" using prod_cases4 by blast
  with Cons.prems have "0 \<le> r" "0 \<le> dx" "r + 4 * dx < int (length b)" by auto
  from evaluateLine_no_fault[OF this]
  obtain v where v: "evaluateLine b r c dx dy p q = Inr v" by blast
  from Cons.prems have "\<forall>(r, c, dx, dy)\<in>set calls. 0 \<le> r \<and> 0 \<le> dx \<and> r + 4 * dx < int (length b)"
    by simp
  from Cons.IH[OF this] show ?case
    by (simp add: call v lineVal_def)
qed

lemma positionScore_sum:
  "positionScore b p = sum_list (map (lineVal b p (otherPlayer p)) (lineCalls (length b)))"
proof -
  have "\<forall>(r, c, dx, dy)\<in>set (lineCalls (length b)). 0 \<le> r \<and> 0 \<le> dx \<and> r + 4 * dx < int (length b)"
    using lineCalls_rows by blast
  from sumLines_sum[OF this]
  show ?thesis
    by (simp add: positionScore_def evaluatePosition_def)
qed

text \<open>
  Position scores are whole multiples of ten and the combined scores of the \<open>'easy'\<close>
  case are whole numbers: the products with 0.9 and 0.8 that the program forms are exact
  in double arithmetic.
\<close>

lemma lineScore_tens:
  assumes "pc + oc + ec = 5"
  shows "\<exists>k :: int. lineScore (pc, oc, ec) = 10 * of_int k"
proof -
  from lineScore_values[OF assms]
  consider "lineScore (pc, oc, ec) = 0" | "lineScore (pc, oc, ec) = 100"
    | "lineScore (pc, oc, ec) = 1000" | "lineScore (pc, oc, ec) = 10000"
    | "lineScore (pc, oc, ec) = 100000" | "lineScore (pc, oc, ec) = - 90"
    | "lineScore (pc, oc, ec) = - 900" | "lineScore (pc, oc, ec) = - 9000"
    | "lineScore (pc, oc, ec) = - 90000" by auto
  then show ?thesis
  proof cases
    case 1 then show ?thesis by (intro exI[of _ 0]) simp
  next
    case 2 then show ?thesis by (intro exI[of _ 10]) simp
  next
    case 3 then show ?thesis by (intro exI[of _ 100]) simp
  next
    case 4 then show ?thesis by (intro exI[of _ 1000]) simp
  next
    case 5 then show ?thesis by (intro exI[of _ 10000]) simp
  next
    case 6 then show ?thesis by (intro exI[of _ "- 9"]) simp
  next
    case 7 then show ?thesis by (intro exI[of _ "- 90"]) simp
  next
    case 8 then show ?thesis by (intro exI[of _ "- 900"]) simp
  next
    case 9 then show ?thesis by (intro exI[of _ "- 9000"]) simp
  qed
qed

lemma lineVal_tens: "\<exists>k :: int. lineVal b p q call = 10 * of_int k"
proof -
  obtain r c dx dy where call: "call = (r, c, dx, dy)" using prod_cases4 by blast
  show ?thesis
  proof (cases "lineCounts b r c dx dy p q")
    case (Inl e)
    then show ?thesis
      by (intro exI[of _ 0]) (simp add: call lineVal_def evaluateLine_def)
  next
    case (Inr cnt)
    obtain pc oc ec where cnt: "cnt = (pc, oc, ec)" using prod_cases3 by blast
    with Inr have "pc + oc + ec = 5" by (simp add: lineCounts_total)
    from lineScore_tens[OF this] show ?thesis
      using Inr cnt by (simp add: call lineVal_def evaluateLine_def)
  qed
qed

lemma sum_list_tens:
  assumes "\<forall>x\<in>set xs. \<exists>k :: int. f x = (10 :: rat) * of_int k"
  shows "\<exists>k :: int. sum_list (map f xs) = 10 * of_int k"
  using assms
proof (induction xs)
  case Nil
  then show ?case by (intro exI[of _ 0]) simp
next
  case (Cons x xs)
  then obtain k1 k2 :: int where "f x = 10 * of_int k1" "sum_list (map f xs) = 10 * of_int k2"
    by auto
  then show ?case
    by (intro exI[of _ "k1 + k2"]) (simp add: algebra_simps)
qed

lemma positionScore_tens: "\<exists>k :: int. positionScore b p = 10 * of_int k"
  unfolding positionScore_sum using lineVal_tens by (intro sum_list_tens) blast

lemma combinedScore_whole: "\<exists>k :: int. combinedScore b p m = Fin (of_int k)"
proof -
  obtain k1 k2 :: int where
    "positionScore (setCell b m p) p = 10 * of_int k1"
    "positionScore (setCell b m (otherPlayer p)) (otherPlayer p) = 10 * of_int k2"
    using positionScore_tens by blast
  then show ?thesis
    unfolding combinedScore_def by (intro exI[of _ "10 * k1 - 8 * k2"]) simp
qed

lemma upt_split3:
  assumes "lo \<le> hi" "hi \<le> n"
  shows "[0..<n] = [0..<lo] @ [lo..<hi] @ [hi..<n]"
proof -
  have a: "[0..<hi + (n - hi)] = [0..<hi] @ [hi..<hi + (n - hi)]"
    by (rule upt_add_eq_append) simp
  have b: "[0..<lo + (hi - lo)] = [0..<lo] @ [lo..<lo + (hi - lo)]"
    by (rule upt_add_eq_append) simp
  from a assms(2) have "[0..<n] = [0..<hi] @ [hi..<n]" by simp
  moreover from b assms(1) have "[0..<hi] = [0..<lo] @ [lo..<hi]" by simp
  ultimately show ?thesis by simp
qed

lemma concat_map_range:
  assumes "lo \<le> hi" "hi \<le> n" "\<And>x. x < n \<Longrightarrow> x < lo \<or> hi \<le> x \<Longrightarrow> g x = []"
  shows "concat (map g [0..<n]) = concat (map g [lo..<hi])"
proof -
  have l: "concat (map g [0..<lo]) = []"
  proof -
    have "g x = []" if "x \<in> set [0..<lo]" for x
      using that assms by simp
    then show ?thesis by simp
  qed
  have r: "concat (map g [hi..<n]) = []"
  proof -
    have "g x = []" if "x \<in> set [hi..<n]" for x
      using that assms by simp
    then show ?thesis by simp
  qed
  show ?thesis
    unfolding upt_split3[OF assms(1,2)] map_append concat_append l r by simp
qed

lemma touches_iff:
  "touches m (r, c, dx, dy) \<longleftrightarrow>
     (\<exists>i\<in>{0, 1, 2, 3, 4}. r + i * dx = int (row m) \<and> c + i * dy = int (col m))"
  by (simp add: touches_def)

lemma touches_cellCalls:
  assumes "i + 4 < row m \<or> row m < i \<or> j + 4 < col m \<or> col m + 4 < j"
  shows "filter (touches m) (cellCalls n i j) = []"
proof -
  have "\<not> touches m (int i, int j, dx, dy)"
    if "dx \<in> {0, 1}" "dy \<in> {- 1, 0, 1}" for dx dy
  proof
    assume "touches m (int i, int j, dx, dy)"
    then obtain k where k: "k \<in> {0, 1, 2, 3, 4 :: int}"
      "int i + k * dx = int (row m)" "int j + k * dy = int (col m)"
      unfolding touches_iff by blast
    from k(1) that(1) have "0 \<le> k * dx" "k * dx \<le> 4" by auto
    with k(2) have r: "i \<le> row m" "row m \<le> i + 4" by linarith+
    from k(1) that(2) have "- 4 \<le> k * dy" "k * dy \<le> 4" by auto
    with k(3) have "col m \<le> j + 4" "j \<le> col m + 4" by linarith+
    with r assms show False by linarith
  qed
  then show ?thesis
    by (simp add: cellCalls_def)
qed

lemma touches_near:
  assumes "row m < n" "col m < n"
  shows "filter (touches m) (lineCalls n) = filter (touches m) (nearCalls n m)"
proof -
  let ?g = "\<lambda>i j. filter (touches m) (cellCalls n i j)"
  have inner: "concat (map (?g i) [0..<n]) = concat (map (?g i) [col m - 4 ..< min n (col m + 5)])"
    for i
  proof (rule concat_map_range)
    show "col m - 4 \<le> min n (col m + 5)" using assms(2) by linarith
    show "min n (col m + 5) \<le> n" by simp
    fix x assume "x < n" "x < col m - 4 \<or> min n (col m + 5) \<le> x"
    then have "x + 4 < col m \<or> col m + 4 < x" by auto
    then show "?g i x = []" by (intro touches_cellCalls) blast
  qed
  have outer: "concat (map (\<lambda>i. concat (map (?g i) [0..<n])) [0..<n])
     = concat (map (\<lambda>i. concat (map (?g i) [0..<n])) [row m - 4 ..< min n (row m + 1)])"
  proof (rule concat_map_range)
    show "row m - 4 \<le> min n (row m + 1)" using assms(1) by linarith
    show "min n (row m + 1) \<le> n" by simp
    fix x assume "x < n" "x < row m - 4 \<or> min n (row m + 1) \<le> x"
    then have x: "x + 4 < row m \<or> row m < x" by auto
    have "?g x j = []" for j
      using x by (intro touches_cellCalls) blast
    then show "concat (map (?g x) [0..<n]) = []" by simp
  qed
  have "filter (touches m) (lineCalls n)
     = concat (map (\<lambda>i. concat (map (?g i) [0..<n])) [0..<n])"
    by (simp add: lineCalls_def filter_concat comp_def)
  also have "\<dots> = concat (map (\<lambda>i. concat (map (?g i) [col m - 4 ..< min n (col m + 5)]))
      [row m - 4 ..< min n (row m + 1)])"
    unfolding outer by (simp only: inner)
  also have "\<dots> = filter (touches m) (nearCalls n m)"
    by (simp add: nearCalls_def filter_concat comp_def)
  finally show ?thesis .
qed

lemma positionScore_delta:
  assumes "isEmpty b m" "col m < length b"
  shows "positionScore (setCell b m v) p = positionScore b p + deltaScore b m v p"
proof -
  let ?q = "otherPlayer p"
  let ?calls = "lineCalls (length b)"
  let ?g = "\<lambda>call. lineVal (setCell b m v) p ?q call - lineVal b p ?q call"
  from assms(1) have rm: "row m < length b" by (simp add: isEmpty_iff)
  have zero: "?g call = 0" if "\<not> touches m call" for call
    using lineVal_untouched[OF assms(1) that] by simp
  have "positionScore (setCell b m v) p - positionScore b p = sum_list (map ?g ?calls)"
    by (simp add: positionScore_sum length_setCell sum_list_subtractf)
  also have "\<dots> = sum_list (map ?g (filter (touches m) ?calls))"
    using zero by (intro sum_list_map_filter[symmetric]) blast
  also have "\<dots> = deltaScore b m v p"
    unfolding touches_near[OF rm assms(2)] deltaScore_def ..
  finally show ?thesis by simp
qed

subsection \<open>Scenario B\<close>

lemma getValidMoves_col: "m \<in> set (getValidMoves b) \<Longrightarrow> col m < length b"
  by (auto simp: getValidMoves_def Let_def set_cellsOf split: if_splits)

lemma none_setCell:
  assumes "\<forall>rw\<in>set b. q \<notin> set rw" "v \<noteq> q"
  shows "\<forall>rw\<in>set (setCell b m v). q \<notin> set rw"
proof
  fix rw assume "rw \<in> set (setCell b m v)"
  then have "rw \<in> insert ((b ! row m)[col m := v]) (set b)"
    unfolding setCell_def using set_update_subset_insert by fastforce
  then consider "rw = (b ! row m)[col m := v]" | "rw \<in> set b" by blast
  then show "q \<notin> set rw"
  proof cases
    case 1
    show ?thesis
    proof (cases "row m < length b")
      case True
      then have "q \<notin> set (b ! row m)" using assms(1) by simp
      moreover have "set ((b ! row m)[col m := v]) \<subseteq> insert v (set (b ! row m))"
        by (rule set_update_subset_insert)
      ultimately show ?thesis using assms(2) 1 by auto
    next
      case False
      then have "setCell b m v = b" by (simp add: setCell_def list_update_beyond)
      with \<open>rw \<in> set (setCell b m v)\<close> assms(1) show ?thesis by simp
    qed
  next
    case 2
    with assms(1) show ?thesis by blast
  qed
qed

lemma sortDesc_first:
  assumes "(m0, s0) \<in> set xs" "\<forall>(m, s)\<in>set xs. (m, s) \<noteq> (m0, s0) \<longrightarrow> s < s0"
  shows "sortDesc xs ! 0 = (m0, s0)"
proof -
  let ?ys = "sortDesc xs"
  have set: "set ?ys = set xs" by (simp add: sortDesc_def)
  from assms(1) set have ne: "?ys \<noteq> []" by auto
  then have hd: "?ys ! 0 \<in> set xs" using set by (metis length_greater_0_conv nth_mem)
  from assms(1) set have "(m0, s0) \<in> set ?ys" by simp
  then obtain k where k: "k < length ?ys" "?ys ! k = (m0, s0)"
    by (auto simp: in_set_conv_nth)
  have "snd (?ys ! k) \<le> snd (?ys ! 0)"
  proof (cases "k = 0")
    case True
    then show ?thesis by simp
  next
    case False
    then have "0 < k" by simp
    with sortDesc_sorted[of xs] k(1) show ?thesis
      by (simp add: sorted_wrt_iff_nth_less)
  qed
  then have ge: "s0 \<le> snd (?ys ! 0)" using k(2) by simp
  obtain m s where ms: "?ys ! 0 = (m, s)" by (cases "?ys ! 0") auto
  show ?thesis
  proof (rule ccontr)
    assume "?ys ! 0 \<noteq> (m0, s0)"
    with ms have "(m, s) \<noteq> (m0, s0)" by simp
    moreover from hd ms have "(m, s) \<in> set xs" by simp
    ultimately have "s < s0" using assms(2) by blast
    with ge ms show False by simp
  qed
qed

lemma isFirstMax_const:
  assumes "isFirstMax f xs i" "\<forall>x\<in>set xs. f x = v"
  shows "i = 0"
proof (rule ccontr)
  assume "i \<noteq> 0"
  then have "0 \<in> {..<i}" by simp
  with assms(1) have lt: "f (xs ! 0) < f (xs ! i)" and i: "i < length xs"
    unfolding isFirstMax_def by blast+
  from i have "0 < length xs" by linarith
  then have "xs ! 0 \<in> set xs" by (rule nth_mem)
  moreover from i have "xs ! i \<in> set xs" by (rule nth_mem)
  ultimately have "xs ! 0 \<in> set xs" "xs ! i \<in> set xs" .
  with assms(2) have "f (xs ! 0) = v" "f (xs ! i) = v" by blast+
  with lt show False by simp
qed

lemma scenarioB_move:
  assumes p: "p \<noteq> EMPTY" "otherPlayer p \<noteq> p"
    and vm: "getValidMoves (scenarioB p) = candidatesB"
    and none: "\<forall>rw\<in>set (scenarioB p). otherPlayer p \<notin> set rw"
    and t2: "threat (scenarioB p) p \<lparr>row = 7, col = 2\<rparr>"
    and t7: "threat (scenarioB p) p \<lparr>row = 7, col = 7\<rparr>"
    and t1: "threat (setCell (scenarioB p) \<lparr>row = 7, col = 2\<rparr> p) p \<lparr>row = 7, col = 1\<rparr>"
    and t8: "threat (setCell (scenarioB p) \<lparr>row = 7, col = 7\<rparr> p) p \<lparr>row = 7, col = 8\<rparr>"
    and d0: "deltaScore (scenarioB p) \<lparr>row = 7, col = 7\<rparr> p p = 100000"
    and dl: "list_all (\<lambda>m. m = \<lparr>row = 7, col = 7\<rparr> \<or> deltaScore (scenarioB p) m p p < 100000)
        candidatesB"
  shows "getBestMove (scenarioB p) p ''hard'' rnd
     = Inr (Some \<lparr>row = 7, col = 7\<rparr>, scenarioB p)"
proof -
  let ?B = "scenarioB p"
  let ?q = "otherPlayer p"
  let ?m7 = "\<lparr>row = 7, col = 7\<rparr> :: move"
  let ?m2 = "\<lparr>row = 7, col = 2\<rparr> :: move"
  have m7: "?m7 \<in> set (getValidMoves ?B)" using threat_valid[OF t7 p(1)] .
  then have ne: "getValidMoves ?B \<noteq> []" by auto
  have emp: "isEmpty ?B m" if "m \<in> set (getValidMoves ?B)" for m
    using that by (rule getValidMoves_empty)
  \<comment> \<open>the search below every candidate returns FIVE\<close>
  have search: "searchFrom False ?B p c = Fin FIVE" if c: "isEmpty ?B c" for c
  proof -
    have none': "\<forall>rw\<in>set (setCell ?B c p). ?q \<notin> set rw"
      using none_setCell[OF none p(2)[symmetric]] .
    have "\<exists>w1 w2. w1 \<noteq> w2 \<and> threat (setCell ?B c p) p w1 \<and> threat (setCell ?B c p) p w2"
    proof -
      consider "c = ?m2" | "c = ?m7" | "c \<noteq> ?m2" "c \<noteq> ?m7" by blast
      then show ?thesis
      proof cases
        case 1
        have "threat (setCell ?B c p) p ?m7"
          using threat_persists[OF t7 c _ p(1)] 1 by simp
        moreover have "threat (setCell ?B c p) p \<lparr>row = 7, col = 1\<rparr>" using t1 1 by simp
        moreover have "?m7 \<noteq> \<lparr>row = 7, col = 1\<rparr>" by simp
        ultimately show ?thesis by blast
      next
        case 2
        have "threat (setCell ?B c p) p ?m2"
          using threat_persists[OF t2 c _ p(1)] 2 by simp
        moreover have "threat (setCell ?B c p) p \<lparr>row = 7, col = 8\<rparr>" using t8 2 by simp
        moreover have "?m2 \<noteq> \<lparr>row = 7, col = 8\<rparr>" by simp
        ultimately show ?thesis by blast
      next
        case 3
        have "threat (setCell ?B c p) p ?m2" "threat (setCell ?B c p) p ?m7"
          using threat_persists[OF t2 c _ p(1)] threat_persists[OF t7 c _ p(1)] 3 by auto
        moreover have "?m2 \<noteq> ?m7" by simp
        ultimately show ?thesis by blast
      qed
    qed
    then obtain w1 w2 where "w1 \<noteq> w2" "threat (setCell ?B c p) p w1" "threat (setCell ?B c p) p w2"
      by blast
    from forced_win_value[OF p(1) none' this(2,3,1)]
    show ?thesis by (simp add: searchFrom_def)
  qed
  \<comment> \<open>the static scores put (7, 7) first\<close>
  have static: "staticScore ?B p m = positionScore ?B p + deltaScore ?B m p p"
    if "m \<in> set (getValidMoves ?B)" for m
    using positionScore_delta[OF emp[OF that] getValidMoves_col[OF that]]
    by (simp add: staticScore_def)
  have lower: "staticScore ?B p m < staticScore ?B p ?m7"
    if "m \<in> set (getValidMoves ?B)" "m \<noteq> ?m7" for m
  proof -
    from that(1) dl have "m = ?m7 \<or> deltaScore ?B m p p < 100000"
      unfolding vm by (simp add: list_all_iff)
    with that(2) have "deltaScore ?B m p p < deltaScore ?B ?m7 p p" by (simp add: d0)
    then show ?thesis using static[OF that(1)] static[OF m7] by simp
  qed
  let ?scored = "scoredCandidates ?B p"
  have in_scored: "(?m7, staticScore ?B p ?m7) \<in> set ?scored"
    using m7 by (auto simp: scoredCandidates_def)
  have others: "\<forall>(m, s)\<in>set ?scored. (m, s) \<noteq> (?m7, staticScore ?B p ?m7)
      \<longrightarrow> s < staticScore ?B p ?m7"
    using lower by (auto simp: scoredCandidates_def)
  from sortDesc_first[OF in_scored others]
  have first: "sortDesc ?scored ! 0 = (?m7, staticScore ?B p ?m7)" .
  have len: "0 < length (sortDesc ?scored)"
    using ne by (simp add: sortDesc_def scoredCandidates_def)
  have kept0: "keptCandidates ?B p ! 0 = ?m7"
    using len first by (simp add: keptCandidates_def)
  \<comment> \<open>so the loop keeps it\<close>
  have kept_emp: "isEmpty ?B c" if "c \<in> set (keptCandidates ?B p)" for c
    using that kept_subset[of 8 "staticScore ?B p" "getValidMoves ?B"] emp
    unfolding keptCandidates_def scoredCandidates_def by blast
  from hard_result[OF ne, of p rnd]
  obtain i where i: "isFirstMax (searchFrom False ?B p) (keptCandidates ?B p) i"
    "getBestMove ?B p ''hard'' rnd = Inr (Some (keptCandidates ?B p ! i), ?B)"
    unfolding keptCandidates_def scoredCandidates_def by blast
  have "\<forall>c\<in>set (keptCandidates ?B p). searchFrom False ?B p c = Fin FIVE"
    using search kept_emp by blast
  from isFirstMax_const[OF i(1) this] have "i = 0" .
  with i(2) kept0 show ?thesis by simp
qed

lemma black_valid: "getValidMoves (scenarioB BLACK) = candidatesB"
  by code_simp

lemma black_none: "\<forall>rw\<in>set (scenarioB BLACK). otherPlayer BLACK \<notin> set rw"
  by code_simp

lemma black_threat_72: "threat (scenarioB BLACK) BLACK \<lparr>row = 7, col = 2\<rparr>"
  by code_simp

lemma black_threat_77: "threat (scenarioB BLACK) BLACK \<lparr>row = 7, col = 7\<rparr>"
  by code_simp

lemma black_threat_71:
  "threat (setCell (scenarioB BLACK) \<lparr>row = 7, col = 2\<rparr> BLACK) BLACK \<lparr>row = 7, col = 1\<rparr>"
  by code_simp

lemma black_threat_78:
  "threat (setCell (scenarioB BLACK) \<lparr>row = 7, col = 7\<rparr> BLACK) BLACK \<lparr>row = 7, col = 8\<rparr>"
  by code_simp

lemma black_delta_77: "deltaScore (scenarioB BLACK) \<lparr>row = 7, col = 7\<rparr> BLACK BLACK = 100000"
  by code_simp

lemma black_delta_row5:
  "list_all (\<lambda>m. m = \<lparr>row = 7, col = 7\<rparr> \<or> deltaScore (scenarioB BLACK) m BLACK BLACK < 100000)
     (rowCells 5 [1, 2, 3, 4, 5, 6, 7, 8])"
  by code_simp

lemma black_delta_row6:
  "list_all (\<lambda>m. m = \<lparr>row = 7, col = 7\<rparr> \<or> deltaScore (scenarioB BLACK) m BLACK BLACK < 100000)
     (rowCells 6 [1, 2, 3, 4, 5, 6, 7, 8])"
  by code_simp

lemma black_delta_row7:
  "list_all (\<lambda>m. m = \<lparr>row = 7, col = 7\<rparr> \<or> deltaScore (scenarioB BLACK) m BLACK BLACK < 100000)
     (rowCells 7 [1, 2, 7, 8])"
  by code_simp

lemma black_delta_row8:
  "list_all (\<lambda>m. m = \<lparr>row = 7, col = 7\<rparr> \<or> deltaScore (scenarioB BLACK) m BLACK BLACK < 100000)
     (rowCells 8 [1, 2, 3, 4, 5, 6, 7, 8])"
  by code_simp

lemma black_delta_row9:
  "list_all (\<lambda>m. m = \<lparr>row = 7, col = 7\<rparr> \<or> deltaScore (scenarioB BLACK) m BLACK BLACK < 100000)
     (rowCells 9 [1, 2, 3, 4, 5, 6, 7, 8])"
  by code_simp

lemma black_delta_all:
  "list_all (\<lambda>m. m = \<lparr>row = 7, col = 7\<rparr> \<or> deltaScore (scenarioB BLACK) m BLACK BLACK < 100000)
     candidatesB"
  unfolding candidatesB_def list_all_append
  using black_delta_row5 black_delta_row6 black_delta_row7 black_delta_row8 black_delta_row9
  by blast

lemma white_valid: "getValidMoves (scenarioB WHITE) = candidatesB"
  by code_simp

lemma white_none: "\<forall>rw\<in>set (scenarioB WHITE). otherPlayer WHITE \<notin> set rw"
  by code_simp

lemma white_threat_72: "threat (scenarioB WHITE) WHITE \<lparr>row = 7, col = 2\<rparr>"
  by code_simp

lemma white_threat_77: "threat (scenarioB WHITE) WHITE \<lparr>row = 7, col = 7\<rparr>"
  by code_simp

lemma white_threat_71:
  "threat (setCell (scenarioB WHITE) \<lparr>row = 7, col = 2\<rparr> WHITE) WHITE \<lparr>row = 7, col = 1\<rparr>"
  by code_simp

lemma white_threat_78:
  "threat (setCell (scenarioB WHITE) \<lparr>row = 7, col = 7\<rparr> WHITE) WHITE \<lparr>row = 7, col = 8\<rparr>"
  by code_simp

lemma white_delta_77: "deltaScore (scenarioB WHITE) \<lparr>row = 7, col = 7\<rparr> WHITE WHITE = 100000"
  by code_simp

lemma white_delta_row5:
  "list_all (\<lambda>m. m = \<lparr>row = 7, col = 7\<rparr> \<or> deltaScore (scenarioB WHITE) m WHITE WHITE < 100000)
     (rowCells 5 [1, 2, 3, 4, 5, 6, 7, 8])"
  by code_simp

lemma white_delta_row6:
  "list_all (\<lambda>m. m = \<lparr>row = 7, col = 7\<rparr> \<or> deltaScore (scenarioB WHITE) m WHITE WHITE < 100000)
     (rowCells 6 [1, 2, 3, 4, 5, 6, 7, 8])"
  by code_simp

lemma white_delta_row7:
  "list_all (\<lambda>m. m = \<lparr>row = 7, col = 7\<rparr> \<or> deltaScore (scenarioB WHITE) m WHITE WHITE < 100000)
     (rowCells 7 [1, 2, 7, 8])"
  by code_simp

lemma white_delta_row8:
  "list_all (\<lambda>m. m = \<lparr>row = 7, col = 7\<rparr> \<or> deltaScore (scenarioB WHITE) m WHITE WHITE < 100000)
     (rowCells 8 [1, 2, 3, 4, 5, 6, 7, 8])"
  by code_simp

lemma white_delta_row9:
  "list_all (\<lambda>m. m = \<lparr>row = 7, col = 7\<rparr> \<or> deltaScore (scenarioB WHITE) m WHITE WHITE < 100000)
     (rowCells 9 [1, 2, 3, 4, 5, 6, 7, 8])"
  by code_simp

lemma white_delta_all:
  "list_all (\<lambda>m. m = \<lparr>row = 7, col = 7\<rparr> \<or> deltaScore (scenarioB WHITE) m WHITE WHITE < 100000)
     candidatesB"
  unfolding candidatesB_def list_all_append
  using white_delta_row5 white_delta_row6 white_delta_row7 white_delta_row8 white_delta_row9
  by blast

text \<open>
  C5: on the board of scenario B, whichever of the two players the four stones and the
  move belong to, \<open>getBestMove\<close> with \<open>'hard'\<close> returns \<open>(7, 7)\<close>, one of the two cells
  \<open>(7, 2)\<close> and \<open>(7, 7)\<close> that complete five, and leaves the board as it was.
\<close>

theorem scenarioB_hard:
  assumes "player = BLACK \<or> player = WHITE"
  shows "getBestMove (scenarioB player) player ''hard'' rnd
     = Inr (Some \<lparr>row = 7, col = 7\<rparr>, scenarioB player)"
proof -
  have b: "BLACK \<noteq> EMPTY" "otherPlayer BLACK \<noteq> BLACK"
    by (simp_all add: BLACK_def EMPTY_def WHITE_def otherPlayer_def)
  have w: "WHITE \<noteq> EMPTY" "otherPlayer WHITE \<noteq> WHITE"
    by (simp_all add: BLACK_def EMPTY_def WHITE_def otherPlayer_def)
  from assms show ?thesis
  proof
    assume "player = BLACK"
    then show ?thesis
      using scenarioB_move[OF b black_valid black_none black_threat_72 black_threat_77
          black_threat_71 black_threat_78 black_delta_77 black_delta_all]
      by simp
  next
    assume "player = WHITE"
    then show ?thesis
      using scenarioB_move[OF w white_valid white_none white_threat_72 white_threat_77
          white_threat_71 white_threat_78 white_delta_77 white_delta_all]
      by simp
  qed
qed

theorem scenarioB_hard_witness:
  "getBestMove (scenarioB BLACK) BLACK ''hard'' 0
     = Inr (Some \<lparr>row = 7, col = 7\<rparr>, scenarioB BLACK)"
  using scenarioB_hard[of BLACK 0] by simp

end
